theory Spec2Isabelle
  imports Main "HOL-Library.Multiset"
begin

section \<open>The literal model used by the translator\<close>

text \<open>
  Modelled from the spec: the module \<open>pddl.conditions\<close> (classes \<open>Atom\<close>,
  \<open>NegatedAtom\<close>, \<open>Condition\<close>) is imported by \<open>petri_translate.py\<close> but is not among
  the sources. The spec's data model gives an atom a predicate name, a parameter list and a
  polarity flag; two atoms are equal iff all three agree; \<open>negate\<close> flips the polarity and
  \<open>positive\<close> strips the negation. The source reads the fields \<open>predicate\<close> and \<open>negated\<close>
  and calls \<open>negate()\<close> and \<open>positive()\<close>.
\<close>

datatype literal = Literal (predicate: string) (args: "string list") (negated: bool)

definition negate :: "literal \<Rightarrow> literal" where
  "negate l = Literal (predicate l) (args l) (\<not> negated l)"

definition positive :: "literal \<Rightarrow> literal" where
  "positive l = Literal (predicate l) (args l) False"

text \<open>
  Modelled from the spec: the string form of an atom, which names its place. The test
  \<open>test_hickmott_example\<close> expects the place of \<open>Atom('a', [])\<close> to be named
  \<open>Atom a()\<close>: the class name, the predicate and the parameters in parentheses. A negated
  atom is an instance of the class \<open>NegatedAtom\<close>.
\<close>

fun join :: "string \<Rightarrow> string list \<Rightarrow> string" where
  "join sep [] = []"
| "join sep [x] = x"
| "join sep (x # y # ys) = x @ sep @ join sep (y # ys)"

definition str_literal :: "literal \<Rightarrow> string" where
  "str_literal l =
     (if negated l then ''NegatedAtom '' else ''Atom '') @ predicate l
       @ ''('' @ join '', '' (args l) @ '')''"

text \<open>
  An entry of a precondition is a bare literal or a condition with parts; the source
  assumes that the parts are literals (``Assume that the effect is a Atom, the same for
  conditions parts'').
\<close>

datatype cond = Lit literal | Conj "literal list"

type_synonym effect = "cond list \<times> literal"

record propositional_action =
  name :: string
  precondition :: "cond list"
  add_effects :: "effect list"
  del_effects :: "effect list"
  cost :: int

text \<open>
  Modelled from the spec: the constructor of \<open>PropositionalAction\<close> (module
  \<open>pddl.actions\<close>, not among the sources) receives one list of (condition, literal)
  pairs. By the spec an effect is tagged as an add-effect (the atom becomes true) or as a
  del-effect (the atom becomes false), and the negated del-effects are the literals that the
  operator makes true: a positive literal is stored as an add-effect, a negative one as a
  del-effect in its positive form.
\<close>

definition PropositionalAction ::
  "string \<Rightarrow> cond list \<Rightarrow> effect list \<Rightarrow> int \<Rightarrow> propositional_action" where
  "PropositionalAction nm pre effects c =
     \<lparr> name = nm, precondition = pre,
       add_effects = filter (\<lambda>(cnd, eff). \<not> negated eff) effects,
       del_effects = map (\<lambda>(cnd, eff). (cnd, negate eff))
                         (filter (\<lambda>(cnd, eff). negated eff) effects),
       cost = c \<rparr>"

section \<open>Python containers\<close>

text \<open>
  A Python \<open>set\<close> is a list without repetitions. Python does not fix the order in which
  a set is iterated; the model iterates in the order of first insertion, and every
  statement about a set below speaks of its members only.
\<close>

definition py_set :: "'a list \<Rightarrow> 'a list" where
  "py_set xs = rev (remdups (rev xs))"

definition py_add :: "'a \<Rightarrow> 'a list \<Rightarrow> 'a list" where
  "py_add x s = (if x \<in> set s then s else s @ [x])"

definition py_difference :: "'a list \<Rightarrow> 'a list \<Rightarrow> 'a list" where
  "py_difference s t = filter (\<lambda>x. x \<notin> set t) s"

definition py_union :: "'a list \<Rightarrow> 'a list \<Rightarrow> 'a list" where
  "py_union s t = s @ filter (\<lambda>x. x \<notin> set s) t"

text \<open>\<open>str(i)\<close> of a non-negative integer, in decimal.\<close>

definition digit_char :: "nat \<Rightarrow> char" where
  "digit_char d = ''0123456789'' ! d"

fun str_nat :: "nat \<Rightarrow> string" where
  "str_nat n = (if n < 10 then [digit_char n] else str_nat (n div 10) @ [digit_char (n mod 10)])"

declare str_nat.simps [simp del]

section \<open>Safe operators (\<open>petri_translate.py\<close>)\<close>

text \<open>\<open>itertools.combinations(s, r)\<close>: the sub-tuples of length \<open>r\<close>, by position.\<close>

fun combinations :: "'a list \<Rightarrow> nat \<Rightarrow> 'a list list" where
  "combinations s 0 = [[]]"
| "combinations [] (Suc r) = []"
| "combinations (x # s) (Suc r) = map ((#) x) (combinations s r) @ combinations s (Suc r)"

definition powerset :: "'a list \<Rightarrow> 'a list list" where
  "powerset s = concat (map (combinations s) [0..<length s + 1])"

text \<open>\<open>if cond.parts: parts = cond.parts else: parts = [cond]\<close>\<close>

fun parts_of :: "cond \<Rightarrow> cond list" where
  "parts_of (Lit l) = [Lit l]"
| "parts_of (Conj []) = [Conj []]"
| "parts_of (Conj (l # ls)) = map Lit (l # ls)"

fun not_negated_effect :: "literal \<Rightarrow> cond list \<Rightarrow> bool" where
  "not_negated_effect eff [] = True"
| "not_negated_effect eff (cnd # preconditions) =
     (if list_ex (\<lambda>part. part = Lit (negate eff) \<or> part = Lit eff) (parts_of cnd)
      then False
      else not_negated_effect eff preconditions)"

definition preconditions_atoms :: "cond list \<Rightarrow> cond list" where
  "preconditions_atoms preconditions = concat (map parts_of preconditions)"

definition join_add_del_effects :: "effect list \<Rightarrow> effect list \<Rightarrow> literal list" where
  "join_add_del_effects adds dels = map snd adds @ map (\<lambda>dele. negate (snd dele)) dels"

text \<open>The locals of one iteration of the loop over the operators.\<close>

definition effects_of :: "propositional_action \<Rightarrow> literal list" where
  "effects_of op = join_add_del_effects (add_effects op) (del_effects op)"

definition not_negated_effects :: "propositional_action \<Rightarrow> literal list" where
  "not_negated_effects op =
     filter (\<lambda>eff. not_negated_effect eff (precondition op)) (effects_of op)"

definition negated_effects :: "propositional_action \<Rightarrow> literal list" where
  "negated_effects op =
     py_difference (py_set (effects_of op)) (py_set (not_negated_effects op))"

definition orig_pre :: "propositional_action \<Rightarrow> cond list" where
  "orig_pre op = py_set (preconditions_atoms (precondition op))"

text \<open>The body of the loop over the power set: the operator numbered \<open>i\<close> for \<open>eprime\<close>.\<close>

definition safe_effects :: "propositional_action \<Rightarrow> literal list \<Rightarrow> literal list" where
  "safe_effects op eprime = py_union (negated_effects op) (py_set eprime)"

definition safe_precondition :: "propositional_action \<Rightarrow> literal list \<Rightarrow> cond list" where
  "safe_precondition op eprime =
     fold (\<lambda>not_negated p.
             if not_negated \<in> set (safe_effects op eprime)
             then py_add (Lit (negate not_negated)) p
             else py_add (Lit not_negated) p)
          (not_negated_effects op) (orig_pre op)"

definition safe_operator ::
  "propositional_action \<Rightarrow> nat \<times> literal list \<Rightarrow> propositional_action" where
  "safe_operator op ie =
     PropositionalAction (name op @ ''_'' @ str_nat (fst ie))
       (safe_precondition op (snd ie))
       (map (\<lambda>eff. ([], eff)) (safe_effects op (snd ie)))
       (cost op)"

definition expand_operator :: "propositional_action \<Rightarrow> propositional_action list" where
  "expand_operator op =
     (if not_negated_effects op = [] then [op]
      else map (safe_operator op) (List.enumerate 1 (powerset (not_negated_effects op))))"

definition get_safe_operators :: "propositional_action list \<Rightarrow> propositional_action list" where
  "get_safe_operators operators = concat (map expand_operator operators)"

section \<open>Removing negative preconditions (\<open>petri_translate.py\<close>)\<close>

text \<open>The exceptions that the modelled code can raise.\<close>

datatype error = AttributeError | KeyError | IndexError

text \<open>
  A Python \<open>dict\<close> keeps its keys in insertion order: assigning to a key that is present
  replaces its value in place, assigning to a new key appends it. Reading a missing key
  raises \<open>KeyError\<close>.
\<close>

type_synonym ('k, 'v) dict = "('k \<times> 'v) list"

fun dict_set :: "('k, 'v) dict \<Rightarrow> 'k \<Rightarrow> 'v \<Rightarrow> ('k, 'v) dict" where
  "dict_set [] k v = [(k, v)]"
| "dict_set ((k', v') # d) k v =
     (if k' = k then (k', v) # d else (k', v') # dict_set d k v)"

definition dict_get :: "('k, 'v) dict \<Rightarrow> 'k \<Rightarrow> error + 'v" where
  "dict_get d k = (case map_of d k of None \<Rightarrow> Inl KeyError | Some v \<Rightarrow> Inr v)"

text \<open>
  \<open>not_x = deepcopy(x.negate()); not_x.predicate = f'not_{x.predicate}'\<close>: the literal of
  the opposite polarity over the predicate with the prefix \<open>not_\<close>.
\<close>

definition not_atom :: "literal \<Rightarrow> literal" where
  "not_atom x = Literal (''not_'' @ predicate x) (args x) (\<not> negated x)"

text \<open>
  The first loop over \<open>enumerate(preconds)\<close>. Modelled from the spec: only atoms carry a
  polarity, so reading \<open>negated\<close> from a condition with parts is an \<open>AttributeError\<close>.
\<close>

fun negated_preconds_loop ::
  "(nat \<times> cond) list \<Rightarrow> (literal, literal) dict \<Rightarrow> nat list
     \<Rightarrow> error + ((literal, literal) dict \<times> nat list)" where
  "negated_preconds_loop [] additional_literals negated_preconds =
     Inr (additional_literals, negated_preconds)"
| "negated_preconds_loop ((i, Lit precond) # rest) additional_literals negated_preconds =
     (if negated precond
      then negated_preconds_loop rest
             (dict_set additional_literals precond (not_atom precond)) (negated_preconds @ [i])
      else negated_preconds_loop rest additional_literals negated_preconds)"
| "negated_preconds_loop ((i, Conj ps) # rest) additional_literals negated_preconds =
     Inl AttributeError"

text \<open>\<open>for i in negated_preconds: preconds[i] = additional_literals[preconds[i]]\<close>\<close>

fun replace_loop ::
  "nat list \<Rightarrow> (literal, literal) dict \<Rightarrow> cond list \<Rightarrow> error + cond list" where
  "replace_loop [] additional_literals preconds = Inr preconds"
| "replace_loop (i # rest) additional_literals preconds =
     (if i < length preconds
      then (case preconds ! i of
              Lit l \<Rightarrow>
                (case dict_get additional_literals l of
                   Inl e \<Rightarrow> Inl e
                 | Inr v \<Rightarrow> replace_loop rest additional_literals (preconds[i := Lit v]))
            | Conj ps \<Rightarrow> Inl KeyError)
      else Inl IndexError)"

text \<open>The loop over the effects: the opposite literal of every effect is a new effect.\<close>

fun new_effects_loop ::
  "literal list \<Rightarrow> (literal, literal) dict \<Rightarrow> literal list
     \<Rightarrow> (literal, literal) dict \<times> literal list" where
  "new_effects_loop [] additional_literals new_effects = (additional_literals, new_effects)"
| "new_effects_loop (eff # rest) additional_literals new_effects =
     new_effects_loop rest
       (if negated eff then dict_set additional_literals eff (not_atom eff)
        else additional_literals)
       (new_effects @ [not_atom eff])"

text \<open>One iteration of the loop over the safe operators: the new operator and the dict.\<close>

definition remove_negative_preconditions_op ::
  "propositional_action \<Rightarrow> (literal, literal) dict
     \<Rightarrow> error + (propositional_action \<times> (literal, literal) dict)" where
  "remove_negative_preconditions_op op additional_literals =
     (case negated_preconds_loop (List.enumerate 0 (precondition op)) additional_literals [] of
        Inl e \<Rightarrow> Inl e
      | Inr (al1, negated_preconds) \<Rightarrow>
          (case replace_loop negated_preconds al1 (precondition op) of
             Inl e \<Rightarrow> Inl e
           | Inr preconds \<Rightarrow>
               (case new_effects_loop (effects_of op) al1 [] of
                  (al2, new_effects) \<Rightarrow>
                    Inr (PropositionalAction (name op) preconds
                           (map (\<lambda>eff. ([], eff)) (effects_of op @ new_effects)) (cost op),
                         al2))))"

fun remove_negative_preconditions_from ::
  "propositional_action list \<Rightarrow> (literal, literal) dict
     \<Rightarrow> error + (propositional_action list \<times> (literal, literal) dict)" where
  "remove_negative_preconditions_from [] additional_literals = Inr ([], additional_literals)"
| "remove_negative_preconditions_from (op # rest) additional_literals =
     (case remove_negative_preconditions_op op additional_literals of
        Inl e \<Rightarrow> Inl e
      | Inr (op', al') \<Rightarrow>
          (case remove_negative_preconditions_from rest al' of
             Inl e \<Rightarrow> Inl e
           | Inr (rest', al'') \<Rightarrow> Inr (op' # rest', al'')))"

text \<open>
  The function mutates the list it is given and returns the dict; the model returns the
  list after the call together with the dict.
\<close>

definition remove_negative_preconditions ::
  "propositional_action list
     \<Rightarrow> error + (propositional_action list \<times> (literal, literal) dict)" where
  "remove_negative_preconditions safe_operators =
     remove_negative_preconditions_from safe_operators []"

section \<open>Notions used in the statements and proofs\<close>

text \<open>The literals of a precondition whose entries are all bare literals.\<close>

fun is_Lit :: "cond \<Rightarrow> bool" where
  "is_Lit (Lit l) = True"
| "is_Lit (Conj ps) = False"

fun is_negated_Lit :: "cond \<Rightarrow> bool" where
  "is_negated_Lit (Lit l) = negated l"
| "is_negated_Lit (Conj ps) = False"

fun lits_of :: "cond list \<Rightarrow> literal list" where
  "lits_of [] = []"
| "lits_of (Lit l # cs) = l # lits_of cs"
| "lits_of (Conj ps # cs) = lits_of cs"

text \<open>What the two precondition loops do to one entry, and what the loops do to the dict.\<close>

fun rewrite_cond :: "cond \<Rightarrow> cond" where
  "rewrite_cond (Lit l) = (if negated l then Lit (not_atom l) else Lit l)"
| "rewrite_cond (Conj ps) = Conj ps"

definition add_literals ::
  "literal list \<Rightarrow> (literal, literal) dict \<Rightarrow> (literal, literal) dict" where
  "add_literals ls d = fold (\<lambda>l d. if negated l then dict_set d l (not_atom l) else d) ls d"

fun positive_cond :: "cond \<Rightarrow> bool" where
  "positive_cond (Lit l) = (\<not> negated l)"
| "positive_cond (Conj ps) = list_all (\<lambda>l. \<not> negated l) ps"

text \<open>An operator without negative polarity.\<close>

definition positive_operator :: "propositional_action \<Rightarrow> bool" where
  "positive_operator op =
     (list_all (\<lambda>c. is_Lit c \<and> positive_cond c) (precondition op)
      \<and> list_all (\<lambda>e. \<not> negated (snd e)) (add_effects op)
      \<and> list_all (\<lambda>e. \<not> negated (snd e)) (del_effects op))"

section \<open>The Petri net (\<open>petri/petri.py\<close>)\<close>

record petri_place =
  place_name :: string
  tokens :: int

record petri_transition =
  transition_name :: string
  origins :: "petri_place list"
  destinations :: "petri_place list"
  transition_cost :: int

record petri_net =
  places :: "petri_place list"
  transitions :: "petri_transition list"

definition PetriPlace :: "string \<Rightarrow> petri_place" where
  "PetriPlace nm = \<lparr> place_name = nm, tokens = 0 \<rparr>"

definition add_tokens :: "petri_place \<Rightarrow> int \<Rightarrow> petri_place" where
  "add_tokens place n_tokens = place \<lparr> tokens := tokens place + n_tokens \<rparr>"

definition add_token :: "petri_place \<Rightarrow> petri_place" where
  "add_token place = add_tokens place 1"

definition PetriTransition ::
  "string \<Rightarrow> petri_place list \<Rightarrow> petri_place list \<Rightarrow> int \<Rightarrow> petri_transition" where
  "PetriTransition nm origs dests c =
     \<lparr> transition_name = nm, origins = origs, destinations = dests, transition_cost = c \<rparr>"

definition PetriNet :: petri_net where
  "PetriNet = \<lparr> places = [], transitions = [] \<rparr>"

definition add_place :: "petri_net \<Rightarrow> petri_place \<Rightarrow> petri_net" where
  "add_place petri place = petri \<lparr> places := places petri @ [place] \<rparr>"

definition add_transition :: "petri_net \<Rightarrow> petri_transition \<Rightarrow> petri_net" where
  "add_transition petri transition = petri \<lparr> transitions := transitions petri @ [transition] \<rparr>"

section \<open>The mapping to a Petri net (\<open>petri_translate.py\<close>)\<close>

text \<open>
  Modelled from the spec: an entry of the initial-state list is a literal or something else
  (the source removes ``all it is not Atom''). \<open>Atom\<close> is the class of the positive literals;
  a negated literal is an instance of \<open>NegatedAtom\<close>.
\<close>

datatype init_entry = InitLiteral literal | InitOther string

fun isinstance_Atom :: "init_entry \<Rightarrow> bool" where
  "isinstance_Atom (InitLiteral l) = (\<not> negated l)"
| "isinstance_Atom (InitOther s) = False"

fun clean_init_loop :: "init_entry list \<Rightarrow> literal list \<Rightarrow> literal list" where
  "clean_init_loop [] clean_init = clean_init"
| "clean_init_loop (InitLiteral l # rest) clean_init =
     clean_init_loop rest (if isinstance_Atom (InitLiteral l) then py_add l clean_init
                           else clean_init)"
| "clean_init_loop (InitOther s # rest) clean_init = clean_init_loop rest clean_init"

text \<open>The two loops that create the places: the net and the dict \<open>places\<close>.\<close>

fun atom_places_loop ::
  "literal list \<Rightarrow> literal list \<Rightarrow> petri_net \<times> (literal, petri_place) dict
     \<Rightarrow> petri_net \<times> (literal, petri_place) dict" where
  "atom_places_loop [] clean_init st = st"
| "atom_places_loop (atom # rest) clean_init (petri, places_dict) =
     (let place = PetriPlace (str_literal atom);
          place = (if atom \<in> set clean_init then add_token place else place)
      in atom_places_loop rest clean_init
           (add_place petri place, dict_set places_dict atom place))"

fun added_places_loop ::
  "(literal \<times> literal) list \<Rightarrow> literal list \<Rightarrow> petri_net \<times> (literal, petri_place) dict
     \<Rightarrow> petri_net \<times> (literal, petri_place) dict" where
  "added_places_loop [] clean_init st = st"
| "added_places_loop ((orig, added) # rest) clean_init (petri, places_dict) =
     (let place = PetriPlace (str_literal added);
          place = (if positive orig \<notin> set clean_init then add_token place else place)
      in added_places_loop rest clean_init
           (add_place petri place, dict_set places_dict added place))"

text \<open>
  The loop that appends the preconditions which are neither among the destinations so far
  nor among the del-effects, compared by their string forms.
\<close>

fun preservation_loop :: "literal list \<Rightarrow> string list \<Rightarrow> literal list \<Rightarrow> literal list" where
  "preservation_loop [] del_strs dests = dests"
| "preservation_loop (precond # rest) del_strs dests =
     (if str_literal precond \<notin> set (map str_literal dests)
         \<and> str_literal precond \<notin> set del_strs
      then preservation_loop rest del_strs (dests @ [precond])
      else preservation_loop rest del_strs dests)"

text \<open>\<open>[places[x] for x in xs]\<close>\<close>

fun lookup_places ::
  "(literal, petri_place) dict \<Rightarrow> literal list \<Rightarrow> error + petri_place list" where
  "lookup_places places_dict [] = Inr []"
| "lookup_places places_dict (x # xs) =
     (case dict_get places_dict x of
        Inl e \<Rightarrow> Inl e
      | Inr place \<Rightarrow>
          (case lookup_places places_dict xs of
             Inl e \<Rightarrow> Inl e
           | Inr ps \<Rightarrow> Inr (place # ps)))"

text \<open>
  The transition of one operator. The keys of \<open>places\<close> are atoms, so a precondition entry
  that is a condition with parts is a missing key (\<open>KeyError\<close>), whatever its string form.
\<close>

definition transition_of ::
  "(literal, petri_place) dict \<Rightarrow> propositional_action \<Rightarrow> error + petri_transition" where
  "transition_of places_dict op =
     (if list_all is_Lit (precondition op)
      then (let origs = lits_of (precondition op);
                dests = preservation_loop origs
                          (map (\<lambda>dele. str_literal (snd dele)) (del_effects op))
                          (map snd (add_effects op))
            in case lookup_places places_dict origs of
                 Inl e \<Rightarrow> Inl e
               | Inr os \<Rightarrow>
                   (case lookup_places places_dict dests of
                      Inl e \<Rightarrow> Inl e
                    | Inr ds \<Rightarrow> Inr (PetriTransition (name op) os ds (cost op))))
      else Inl KeyError)"

fun transitions_loop ::
  "(literal, petri_place) dict \<Rightarrow> propositional_action list \<Rightarrow> petri_net
     \<Rightarrow> error + petri_net" where
  "transitions_loop places_dict [] petri = Inr petri"
| "transitions_loop places_dict (op # rest) petri =
     (case transition_of places_dict op of
        Inl e \<Rightarrow> Inl e
      | Inr t \<Rightarrow> transitions_loop places_dict rest (add_transition petri t))"

definition petri_mapping ::
  "literal list \<Rightarrow> (literal, literal) dict \<Rightarrow> propositional_action list \<Rightarrow> init_entry list
     \<Rightarrow> error + petri_net" where
  "petri_mapping atoms additional_literals safe_operators init =
     (let clean_init = clean_init_loop init [] in
      case added_places_loop additional_literals clean_init
             (atom_places_loop atoms clean_init (PetriNet, [])) of
        (petri, places_dict) \<Rightarrow> transitions_loop places_dict safe_operators petri)"

text \<open>The place of an original atom and the place of an added atom, given the initial atoms.\<close>

definition atom_place :: "literal list \<Rightarrow> literal \<Rightarrow> petri_place" where
  "atom_place clean atom =
     \<lparr> place_name = str_literal atom, tokens = (if atom \<in> set clean then 1 else 0) \<rparr>"

definition added_place :: "literal list \<Rightarrow> literal \<times> literal \<Rightarrow> petri_place" where
  "added_place clean oa =
     \<lparr> place_name = str_literal (snd oa),
       tokens = (if positive (fst oa) \<in> set clean then 0 else 1) \<rparr>"

definition places_dict_of ::
  "literal list \<Rightarrow> literal list \<Rightarrow> (literal \<times> literal) list \<Rightarrow> (literal, petri_place) dict" where
  "places_dict_of clean atoms additional =
     fold (\<lambda>oa d. dict_set d (snd oa) (added_place clean oa)) additional
       (fold (\<lambda>atom d. dict_set d atom (atom_place clean atom)) atoms [])"

text \<open>
  The preconditions that the mapping appends to the destinations of an operator's
  transition, after the add-effects.
\<close>

definition kept_preconditions :: "propositional_action \<Rightarrow> literal list" where
  "kept_preconditions op =
     drop (length (add_effects op))
       (preservation_loop (lits_of (precondition op))
          (map (\<lambda>dele. str_literal (snd dele)) (del_effects op))
          (map snd (add_effects op)))"

text \<open>
  The invariant of the preservation loop: the entries appended after the first \<open>n\<close> have
  pairwise different string forms, none of which is the string form of one of the first
  \<open>n\<close> entries or of a del-effect.
\<close>

definition kept_ok :: "nat \<Rightarrow> string list \<Rightarrow> literal list \<Rightarrow> bool" where
  "kept_ok n dels dests \<longleftrightarrow>
     distinct (map str_literal (drop n dests))
     \<and> set (map str_literal (drop n dests)) \<inter> set (map str_literal (take n dests)) = {}
     \<and> set (map str_literal (drop n dests)) \<inter> set dels = {}"

section \<open>The finite-domain encoding (\<open>PetriNet.sas_translate\<close>)\<close>

text \<open>
  Modelled from the spec: the classes of \<open>sas_tasks\<close> are not among the sources. By the
  spec the serializer receives the variables (ranges, axiom layers, value names), an empty
  list of mutex groups, the initial values, the goal pairs, the operators (name, prevail
  list, pre/post list of (variable, pre-value, post-value, condition), cost), an empty
  axiom list and the metric flag; the constructors store what they are given.
\<close>

type_synonym pre_post_entry = "nat \<times> int \<times> int \<times> (nat \<times> int) list"

record sas_operator =
  sas_name :: string
  prevail :: "(nat \<times> int) list"
  pre_post :: "pre_post_entry list"
  sas_cost :: int

record sas_task =
  ranges :: "int list"
  axiom_layers :: "int list"
  value_names :: "string list list"
  mutexes :: "unit list"
  init_values :: "int list"
  goal_pairs :: "(nat \<times> int) list"
  operators :: "sas_operator list"
  axioms :: "unit list"
  metric :: bool

definition SASOperator ::
  "string \<Rightarrow> (nat \<times> int) list \<Rightarrow> pre_post_entry list \<Rightarrow> int \<Rightarrow> sas_operator" where
  "SASOperator nm prv pp c = \<lparr> sas_name = nm, prevail = prv, pre_post = pp, sas_cost = c \<rparr>"

text \<open>The locals of the loop over the places.\<close>

record translate_state =
  st_ranges :: "int list"
  st_axiom_layers :: "int list"
  st_value_names :: "string list list"
  st_init_values :: "int list"
  st_petri_goals :: "(nat \<times> int) list"
  st_place2var :: "(string, nat) dict"

text \<open>
  The inner loop over the goal literals, for the place with the variable \<open>var\<close>. A goal
  entry that is no literal (an empty conjunction) has no atom and names no place.
\<close>

fun goals_loop :: "cond list \<Rightarrow> string \<Rightarrow> nat \<Rightarrow> (nat \<times> int) list \<Rightarrow> (nat \<times> int) list" where
  "goals_loop [] nm var petri_goals = petri_goals"
| "goals_loop (Lit g # rest) nm var petri_goals =
     (let petri_goals = (if str_literal g = nm then petri_goals @ [(var, 1)] else petri_goals);
          petri_goals = (if str_literal (negate g) = nm then petri_goals @ [(var, 0)]
                         else petri_goals)
      in goals_loop rest nm var petri_goals)"
| "goals_loop (Conj ps # rest) nm var petri_goals = goals_loop rest nm var petri_goals"

fun places_loop :: "petri_place list \<Rightarrow> cond list \<Rightarrow> translate_state \<Rightarrow> translate_state" where
  "places_loop [] pddl_goals st = st"
| "places_loop (place # rest) pddl_goals st =
     (let st = st \<lparr> st_place2var :=
                      dict_set (st_place2var st) (place_name place) (length (st_ranges st)) \<rparr>;
          st = st \<lparr> st_ranges := st_ranges st @ [2] \<rparr>;
          st = st \<lparr> st_axiom_layers := st_axiom_layers st @ [- 1] \<rparr>;
          st = st \<lparr> st_value_names := st_value_names st
                      @ [[place_name place @ ''(false)'', place_name place @ ''(true)'']] \<rparr>;
          st = st \<lparr> st_init_values := st_init_values st
                      @ [if tokens place > 0 then 1 else 0] \<rparr>;
          st = st \<lparr> st_petri_goals :=
                      goals_loop pddl_goals (place_name place) (length (st_ranges st) - 1)
                        (st_petri_goals st) \<rparr>
      in places_loop rest pddl_goals st)"

text \<open>The loop over the origins of a transition: \<open>pre_post\<close> and \<open>entered_vars\<close>.\<close>

fun origins_loop ::
  "(string, nat) dict \<Rightarrow> petri_place list \<Rightarrow> petri_place list
     \<Rightarrow> pre_post_entry list \<times> nat list \<Rightarrow> error + (pre_post_entry list \<times> nat list)" where
  "origins_loop place2var [] dests st = Inr st"
| "origins_loop place2var (orig # rest) dests (pp, entered_vars) =
     (case dict_get place2var (place_name orig) of
        Inl e \<Rightarrow> Inl e
      | Inr var \<Rightarrow>
          (let pre_val = 1;
               post_val = (if list_ex (\<lambda>dest. place_name dest = place_name orig) dests
                           then 1 else 0)
           in origins_loop place2var rest dests
                (pp @ [(var, pre_val, post_val, [])], py_add var entered_vars)))"

text \<open>The loop over the destinations of a transition.\<close>

fun destinations_loop ::
  "(string, nat) dict \<Rightarrow> petri_place list \<Rightarrow> petri_place list \<Rightarrow> nat list
     \<Rightarrow> pre_post_entry list \<Rightarrow> error + pre_post_entry list" where
  "destinations_loop place2var [] origs entered_vars pp = Inr pp"
| "destinations_loop place2var (dest # rest) origs entered_vars pp =
     (case dict_get place2var (place_name dest) of
        Inl e \<Rightarrow> Inl e
      | Inr var \<Rightarrow>
          (if var \<notin> set entered_vars
           then (let post_val = 1;
                     pre_val = (if list_ex (\<lambda>orig. place_name orig = place_name dest) origs
                                then 1 else 0)
                 in destinations_loop place2var rest origs entered_vars
                      (pp @ [(var, pre_val, post_val, [])]))
           else destinations_loop place2var rest origs entered_vars pp))"

definition operator_of :: "(string, nat) dict \<Rightarrow> petri_transition \<Rightarrow> error + sas_operator" where
  "operator_of place2var tran =
     (case origins_loop place2var (origins tran) (destinations tran) ([], []) of
        Inl e \<Rightarrow> Inl e
      | Inr (pp, entered_vars) \<Rightarrow>
          (case destinations_loop place2var (destinations tran) (origins tran) entered_vars pp of
             Inl e \<Rightarrow> Inl e
           | Inr pp' \<Rightarrow>
               Inr (SASOperator (''('' @ transition_name tran @ '')'') [] pp'
                      (transition_cost tran))))"

fun operators_loop ::
  "(string, nat) dict \<Rightarrow> petri_transition list \<Rightarrow> sas_operator list
     \<Rightarrow> error + sas_operator list" where
  "operators_loop place2var [] ops = Inr ops"
| "operators_loop place2var (tran # rest) ops =
     (case operator_of place2var tran of
        Inl e \<Rightarrow> Inl e
      | Inr sas_op \<Rightarrow> operators_loop place2var rest (ops @ [sas_op]))"

text \<open>\<open>if goal.parts: pddl_goals = goal.parts else: pddl_goals = [goal]\<close>\<close>

definition pddl_goals_of :: "cond \<Rightarrow> cond list" where
  "pddl_goals_of goal = parts_of goal"

text \<open>
  The task that \<open>sas_translate\<close> hands to the serializer (writing it to the stream is the
  serializer's work), or the exception it raises.
\<close>

definition sas_translate :: "petri_net \<Rightarrow> cond \<Rightarrow> error + sas_task" where
  "sas_translate petri goal =
     (let st = places_loop (places petri) (pddl_goals_of goal)
                 \<lparr> st_ranges = [], st_axiom_layers = [], st_value_names = [],
                   st_init_values = [], st_petri_goals = [], st_place2var = [] \<rparr>
      in case operators_loop (st_place2var st) (transitions petri) [] of
           Inl e \<Rightarrow> Inl e
         | Inr ops \<Rightarrow>
             Inr \<lparr> ranges = st_ranges st, axiom_layers = st_axiom_layers st,
                   value_names = st_value_names st, mutexes = [],
                   init_values = st_init_values st, goal_pairs = st_petri_goals st,
                   operators = ops, axioms = [], metric = True \<rparr>)"

section \<open>Notions for the encoder\<close>

text \<open>The dict \<open>place2var\<close> after the loop over the places, and the variable of a place.\<close>

definition place2var_of :: "petri_place list \<Rightarrow> (string, nat) dict" where
  "place2var_of ps =
     fold (\<lambda>ip d. dict_set d (place_name (snd ip)) (fst ip)) (List.enumerate 0 ps) []"

definition var_of :: "petri_net \<Rightarrow> petri_place \<Rightarrow> nat" where
  "var_of petri place = the (map_of (place2var_of (places petri)) (place_name place))"

text \<open>The goal pairs of one place for one goal entry.\<close>

fun goal_pairs_of :: "string \<Rightarrow> nat \<Rightarrow> cond \<Rightarrow> (nat \<times> int) list" where
  "goal_pairs_of nm var (Lit g) =
     (if str_literal g = nm then [(var, 1)] else [])
     @ (if str_literal (negate g) = nm then [(var, 0)] else [])"
| "goal_pairs_of nm var (Conj ps) = []"

section \<open>The token game\<close>

text \<open>
  Modelled from the spec: the sources build the net and never fire a transition. By the
  spec a marking is the current token assignment over all places, a place is identified by
  its name, the origins of a transition are consumed and the destinations are produced, and
  order and duplicates among the origins and among the destinations are irrelevant. A
  transition is enabled when every origin holds a token; firing it takes one token from
  every origin place and puts one token into every destination place.
\<close>

type_synonym marking = "string \<Rightarrow> int"

definition initial_marking :: "petri_net \<Rightarrow> marking" where
  "initial_marking petri nm =
     (case find (\<lambda>place. place_name place = nm) (places petri) of
        None \<Rightarrow> 0
      | Some place \<Rightarrow> tokens place)"

definition holds_token :: "marking \<Rightarrow> string \<Rightarrow> bool" where
  "holds_token m nm = (m nm > 0)"

definition enabled :: "marking \<Rightarrow> petri_transition \<Rightarrow> bool" where
  "enabled m t = list_all (\<lambda>orig. holds_token m (place_name orig)) (origins t)"

definition fire :: "marking \<Rightarrow> petri_transition \<Rightarrow> marking" where
  "fire m t nm =
     m nm - (if nm \<in> set (map place_name (origins t)) then 1 else 0)
          + (if nm \<in> set (map place_name (destinations t)) then 1 else 0)"

section \<open>Well-formed tasks\<close>

text \<open>The atom that \<open>remove_negative_preconditions\<close> creates for the negation of an atom.\<close>

definition complement_atom :: "literal \<Rightarrow> literal" where
  "complement_atom a = not_atom (negate a)"

text \<open>
  A task is well formed when every literal of every action is over an atom of the atom
  list, no action has an effect and its negation, no atom of the list is the complement
  atom of an atom of the list (the prefix \<open>not_\<close> is reserved), and different atoms and
  complement atoms have different string forms.
\<close>

definition well_formed_task :: "literal list \<Rightarrow> propositional_action list \<Rightarrow> bool" where
  "well_formed_task atoms actions \<longleftrightarrow>
     list_all (\<lambda>a. list_all (\<lambda>l. positive l \<in> set atoms)
                      (lits_of (preconditions_atoms (precondition a)) @ effects_of a)
                  \<and> list_all (\<lambda>l. negate l \<notin> set (effects_of a)) (effects_of a)) actions
     \<and> list_all (\<lambda>a. \<not> negated a \<and> complement_atom a \<notin> set atoms) atoms
     \<and> distinct (map str_literal (remdups (atoms @ map complement_atom atoms)))"

text \<open>The operator that \<open>remove_negative_preconditions\<close> puts in the place of an operator.\<close>

definition rewritten_operator :: "propositional_action \<Rightarrow> propositional_action" where
  "rewritten_operator op =
     PropositionalAction (name op) (map rewrite_cond (precondition op))
       (map (\<lambda>eff. ([], eff)) (effects_of op @ map not_atom (effects_of op))) (cost op)"

text \<open>
  What the later stages need of a safe operator: its precondition entries are literals, its
  literals are over atoms of the list, it has no effect together with the negation of the
  effect, and every effect or its negation is a precondition.
\<close>

definition operator_ok :: "literal list \<Rightarrow> propositional_action \<Rightarrow> bool" where
  "operator_ok atoms op \<longleftrightarrow>
     list_all is_Lit (precondition op)
     \<and> list_all (\<lambda>l. positive l \<in> set atoms) (lits_of (precondition op))
     \<and> list_all (\<lambda>l. positive l \<in> set atoms \<and> negate l \<notin> set (effects_of op)
                    \<and> (l \<in> set (lits_of (precondition op))
                       \<or> negate l \<in> set (lits_of (precondition op))))
         (effects_of op)"

text \<open>
  The atom that stands for a literal among the preconditions and the add-effects of a
  rewritten operator, and the atom that the rewritten operator deletes for an effect.
\<close>

definition origin_atom :: "literal \<Rightarrow> literal" where
  "origin_atom l = (if negated l then not_atom l else l)"

definition opposite_atom :: "literal \<Rightarrow> literal" where
  "opposite_atom l = (if negated l then negate l else negate (not_atom l))"

text \<open>What well-formedness says about the atom list alone.\<close>

definition atoms_ok :: "literal list \<Rightarrow> bool" where
  "atoms_ok atoms \<longleftrightarrow>
     list_all (\<lambda>a. \<not> negated a \<and> complement_atom a \<notin> set atoms) atoms
     \<and> inj_on str_literal (set atoms \<union> complement_atom ` set atoms)"

section \<open>Concrete inputs\<close>

definition atom_a :: literal where "atom_a = Literal ''a'' [] False"
definition atom_b :: literal where "atom_b = Literal ''b'' [] False"
definition atom_c :: literal where "atom_c = Literal ''c'' [] False"
definition atom_d :: literal where "atom_d = Literal ''d'' [] False"

definition ex_x :: propositional_action where
  "ex_x = PropositionalAction ''x'' [Conj [atom_a], Conj [negate atom_b]]
            [([], negate atom_a), ([], atom_d)] 0"

definition ex_y :: propositional_action where
  "ex_y = PropositionalAction ''y'' [Lit atom_a]
            [([], negate atom_a), ([], atom_c), ([], negate atom_d)] 3"

definition ex_dup :: propositional_action where
  "ex_dup = \<lparr> name = ''z'', precondition = [], add_effects = [([], atom_d), ([], atom_d)],
              del_effects = [], cost = 1 \<rparr>"

definition ex_v :: propositional_action where
  "ex_v = PropositionalAction ''v'' [Lit atom_a] [([], atom_a), ([], atom_d)] 2"

text \<open>
  The example of Hickmott et al. used by the test: the operator \<open>x\<close> with the atoms
  \<open>a\<close>, \<open>b\<close>, \<open>d\<close> and the initial state \<open>{a}\<close>.
\<close>

definition hick_safe :: "propositional_action list" where
  "hick_safe =
     [\<lparr> name = ''x_1'',
        precondition = [Lit atom_a, Lit (Literal ''not_b'' [] False), Lit atom_d],
        add_effects = [([], Literal ''not_a'' [] False)],
        del_effects = [([], atom_a)], cost = 0 \<rparr>,
      \<lparr> name = ''x_2'',
        precondition = [Lit atom_a, Lit (Literal ''not_b'' [] False),
                        Lit (Literal ''not_d'' [] False)],
        add_effects = [([], atom_d), ([], Literal ''not_a'' [] False)],
        del_effects = [([], atom_a), ([], Literal ''not_d'' [] False)], cost = 0 \<rparr>]"

definition hick_additional :: "(literal, literal) dict" where
  "hick_additional =
     [(negate atom_b, Literal ''not_b'' [] False),
      (negate atom_a, Literal ''not_a'' [] False),
      (negate atom_d, Literal ''not_d'' [] False)]"

definition hick_atoms :: "literal list" where
  "hick_atoms = [atom_a, atom_b, atom_d]"

definition hick_init :: "init_entry list" where
  "hick_init = [InitLiteral atom_a, InitOther ''total-cost'']"

definition place_a :: petri_place where "place_a = \<lparr> place_name = ''Atom a()'', tokens = 1 \<rparr>"
definition place_b :: petri_place where "place_b = \<lparr> place_name = ''Atom b()'', tokens = 0 \<rparr>"
definition place_d :: petri_place where "place_d = \<lparr> place_name = ''Atom d()'', tokens = 0 \<rparr>"
definition place_not_a :: petri_place where
  "place_not_a = \<lparr> place_name = ''Atom not_a()'', tokens = 0 \<rparr>"
definition place_not_b :: petri_place where
  "place_not_b = \<lparr> place_name = ''Atom not_b()'', tokens = 1 \<rparr>"
definition place_not_d :: petri_place where
  "place_not_d = \<lparr> place_name = ''Atom not_d()'', tokens = 1 \<rparr>"

definition hick_net :: petri_net where
  "hick_net =
     \<lparr> places = [place_a, place_b, place_d, place_not_b, place_not_a, place_not_d],
       transitions =
         [\<lparr> transition_name = ''x_1'', origins = [place_a, place_not_b, place_d],
            destinations = [place_not_a, place_not_b, place_d], transition_cost = 0 \<rparr>,
          \<lparr> transition_name = ''x_2'', origins = [place_a, place_not_b, place_not_d],
            destinations = [place_d, place_not_a, place_not_b], transition_cost = 0 \<rparr>] \<rparr>"

definition hick_task :: sas_task where
  "hick_task =
     \<lparr> ranges = [2, 2, 2, 2, 2, 2], axiom_layers = [- 1, - 1, - 1, - 1, - 1, - 1],
       value_names =
         [[''Atom a()(false)'', ''Atom a()(true)''], [''Atom b()(false)'', ''Atom b()(true)''],
          [''Atom d()(false)'', ''Atom d()(true)''],
          [''Atom not_b()(false)'', ''Atom not_b()(true)''],
          [''Atom not_a()(false)'', ''Atom not_a()(true)''],
          [''Atom not_d()(false)'', ''Atom not_d()(true)'']],
       mutexes = [], init_values = [1, 0, 0, 1, 0, 1], goal_pairs = [(2, 1)],
       operators =
         [\<lparr> sas_name = ''(x_1)'', prevail = [],
            pre_post = [(0, 1, 0, []), (3, 1, 1, []), (2, 1, 1, []), (4, 0, 1, [])],
            sas_cost = 0 \<rparr>,
          \<lparr> sas_name = ''(x_2)'', prevail = [],
            pre_post = [(0, 1, 0, []), (3, 1, 1, []), (5, 1, 0, []), (2, 0, 1, []),
                        (4, 0, 1, [])],
            sas_cost = 0 \<rparr>],
       axioms = [], metric = True \<rparr>"

text \<open>
  A task that has the predicate \<open>not_p\<close> of its own: the atoms \<open>p\<close> and \<open>not_p\<close>, an action
  with the precondition \<open>\<not>p\<close>, an action that adds \<open>not_p\<close>, and the initial state \<open>{p}\<close>.
\<close>

definition atom_p :: literal where "atom_p = Literal ''p'' [] False"
definition atom_not_p :: literal where "atom_not_p = Literal ''not_p'' [] False"

definition clash_actions :: "propositional_action list" where
  "clash_actions =
     [PropositionalAction ''check'' [Lit (negate atom_p)] [] 1,
      PropositionalAction ''mark'' [] [([], atom_not_p)] 1]"

definition clash_atoms :: "literal list" where
  "clash_atoms = [atom_p, atom_not_p]"

definition clash_init :: "init_entry list" where
  "clash_init = [InitLiteral atom_p]"

text \<open>What the stages make of this task.\<close>

definition clash_safe :: "propositional_action list" where
  "clash_safe =
     [\<lparr> name = ''check'', precondition = [Lit atom_not_p],
        add_effects = [], del_effects = [], cost = 1 \<rparr>,
      \<lparr> name = ''mark_1'', precondition = [Lit atom_not_p],
        add_effects = [], del_effects = [], cost = 1 \<rparr>,
      \<lparr> name = ''mark_2'', precondition = [Lit (Literal ''not_not_p'' [] False)],
        add_effects = [([], atom_not_p)],
        del_effects = [([], Literal ''not_not_p'' [] False)], cost = 1 \<rparr>]"

definition clash_additional :: "(literal, literal) dict" where
  "clash_additional =
     [(negate atom_p, atom_not_p), (negate atom_not_p, Literal ''not_not_p'' [] False)]"

definition place_p :: petri_place where "place_p = \<lparr> place_name = ''Atom p()'', tokens = 1 \<rparr>"
definition place_not_p :: petri_place where
  "place_not_p = \<lparr> place_name = ''Atom not_p()'', tokens = 0 \<rparr>"
definition place_not_not_p :: petri_place where
  "place_not_not_p = \<lparr> place_name = ''Atom not_not_p()'', tokens = 1 \<rparr>"

definition clash_mark_2 :: petri_transition where
  "clash_mark_2 =
     \<lparr> transition_name = ''mark_2'', origins = [place_not_not_p],
       destinations = [place_not_p], transition_cost = 1 \<rparr>"

definition clash_net :: petri_net where
  "clash_net =
     \<lparr> places = [place_p, place_not_p, place_not_p, place_not_not_p],
       transitions =
         [\<lparr> transition_name = ''check'', origins = [place_not_p],
            destinations = [place_not_p], transition_cost = 1 \<rparr>,
          \<lparr> transition_name = ''mark_1'', origins = [place_not_p],
            destinations = [place_not_p], transition_cost = 1 \<rparr>,
          clash_mark_2] \<rparr>"

section \<open>The power set enumeration\<close>

lemma filter_length0_subseqs: "filter (\<lambda>ys. length ys = 0) (subseqs xs) = [[]]"
  by (induction xs) (simp_all add: Let_def filter_map o_def)

lemma combinations_subseqs:
  "combinations xs r = filter (\<lambda>ys. length ys = r) (subseqs xs)"
proof (induction xs arbitrary: r)
  case Nil
  then show ?case by (cases r) simp_all
next
  case (Cons x xs)
  show ?case
  proof (cases r)
    case 0
    then show ?thesis using filter_length0_subseqs [of "x # xs"] by simp
  next
    case (Suc r')
    then show ?thesis by (simp add: Cons.IH Let_def filter_map o_def)
  qed
qed

lemma mset_concat_filter_upt:
  "mset (concat (map (\<lambda>r. filter (\<lambda>y. f y = r) S) [0..<m])) = mset (filter (\<lambda>y. f y < m) S)"
proof (induction m)
  case 0
  then show ?case by simp
next
  case (Suc m)
  have "mset (filter (\<lambda>y. f y < m) S) + mset (filter (\<lambda>y. f y = m) S)
        = mset (filter (\<lambda>y. f y < Suc m) S)"
    by (induction S) (auto simp: less_Suc_eq)
  with Suc show ?case by simp
qed

lemma length_subseqs_le: "ys \<in> set (subseqs xs) \<Longrightarrow> length ys \<le> length xs"
  by (induction xs arbitrary: ys) (auto simp: Let_def le_SucI)

lemma mset_powerset: "mset (powerset xs) = mset (subseqs xs)"
proof -
  have "powerset xs = concat (map (\<lambda>r. filter (\<lambda>ys. length ys = r) (subseqs xs)) [0..<length xs + 1])"
  proof -
    have "combinations xs = (\<lambda>r. filter (\<lambda>ys. length ys = r) (subseqs xs))"
      by (rule ext) (rule combinations_subseqs)
    then show ?thesis by (simp only: powerset_def)
  qed
  then have "mset (powerset xs) = mset (filter (\<lambda>ys. length ys < length xs + 1) (subseqs xs))"
    by (simp only: mset_concat_filter_upt)
  also have "filter (\<lambda>ys. length ys < length xs + 1) (subseqs xs) = subseqs xs"
    by (rule filter_True) (auto dest: length_subseqs_le)
  finally show ?thesis .
qed

lemma length_powerset: "length (powerset xs) = 2 ^ length xs"
  using mset_powerset [of xs] length_subseqs [of xs] by (metis size_mset)

lemma set_powerset: "set (powerset xs) = set (subseqs xs)"
  using mset_powerset [of xs] by (metis set_mset_mset)

lemma distinct_map_set_powerset:
  assumes "distinct xs" shows "distinct (map set (powerset xs))"
proof -
  have "mset (map set (powerset xs)) = mset (map set (subseqs xs))"
    using mset_powerset [of xs] by (metis mset_map)
  then show ?thesis
    using distinct_set_subseqs [OF assms] by (metis mset_eq_imp_distinct_iff)
qed

section \<open>Safe-operator expansion\<close>

lemma set_py_set [simp]: "set (py_set xs) = set xs"
  by (simp add: py_set_def)

lemma distinct_py_set [simp]: "distinct (py_set xs)"
  by (simp add: py_set_def)

lemma set_py_add [simp]: "set (py_add x s) = insert x (set s)"
  by (auto simp: py_add_def)

lemma set_py_difference [simp]: "set (py_difference s t) = set s - set t"
  by (auto simp: py_difference_def)

lemma set_py_union [simp]: "set (py_union s t) = set s \<union> set t"
  by (auto simp: py_union_def)

lemma negate_negate [simp]: "negate (negate l) = l"
  by (cases l) (simp add: negate_def)

lemma negated_negate [simp]: "negated (negate l) = (\<not> negated l)"
  by (simp add: negate_def)

lemma PropositionalAction_sel [simp]:
  "name (PropositionalAction nm pre effs c) = nm"
  "precondition (PropositionalAction nm pre effs c) = pre"
  "cost (PropositionalAction nm pre effs c) = c"
  by (simp_all add: PropositionalAction_def)

lemma set_effects_of_PropositionalAction:
  "set (effects_of (PropositionalAction nm pre (map (\<lambda>eff. ([], eff)) e) c)) = set e"
  by (auto simp: effects_of_def join_add_del_effects_def PropositionalAction_def
      image_iff split: prod.splits)

lemma set_effects_of_safe_operator:
  "set (effects_of (safe_operator op ie)) = set (negated_effects op) \<union> set (snd ie)"
  by (simp add: safe_operator_def set_effects_of_PropositionalAction safe_effects_def)

lemma negated_effects_disjoint:
  "set (negated_effects op) \<inter> set (not_negated_effects op) = {}"
  by (auto simp: negated_effects_def)

lemma get_safe_operators_block:
  "get_safe_operators (before @ op # after) =
     get_safe_operators before @ expand_operator op @ get_safe_operators after"
  by (simp add: get_safe_operators_def)

lemma expand_operator_ambiguous:
  "not_negated_effects op \<noteq> [] \<Longrightarrow>
   expand_operator op = map (safe_operator op) (List.enumerate 1 (powerset (not_negated_effects op)))"
  by (simp add: expand_operator_def)

lemma map_snd_enumerate_fun: "map (\<lambda>x. g (snd x)) (List.enumerate n ps) = map g ps"
proof -
  have "map (g \<circ> snd) (List.enumerate n ps) = map g ps"
    by (simp only: map_map [symmetric] map_snd_enumerate)
  then show ?thesis by (simp only: o_def)
qed

lemma map_fst_enumerate_fun:
  "map (\<lambda>x. g (fst x)) (List.enumerate n ps) = map g [n..<n + length ps]"
proof -
  have "map (g \<circ> fst) (List.enumerate n ps) = map g [n..<n + length ps]"
    by (simp only: map_map [symmetric] map_fst_enumerate)
  then show ?thesis by (simp only: o_def)
qed

lemma map_effect_sets:
  "map (\<lambda>o'. set (effects_of o')) (map (safe_operator op) (List.enumerate n ps)) =
   map (\<lambda>S. set (negated_effects op) \<union> S) (map set ps)"
proof -
  have "map (\<lambda>o'. set (effects_of o')) (map (safe_operator op) (List.enumerate n ps)) =
        map (\<lambda>x. (\<lambda>e. set (negated_effects op) \<union> set e) (snd x)) (List.enumerate n ps)"
    by (simp add: set_effects_of_safe_operator o_def)
  also have "\<dots> = map (\<lambda>e. set (negated_effects op) \<union> set e) ps"
    by (rule map_snd_enumerate_fun)
  also have "\<dots> = map (\<lambda>S. set (negated_effects op) \<union> S) (map set ps)"
    by (simp add: o_def)
  finally show ?thesis .
qed

lemma map_names:
  "map name (map (safe_operator op) (List.enumerate n ps)) =
   map (\<lambda>i. name op @ ''_'' @ str_nat i) [n..<n + length ps]"
proof -
  have "map name (map (safe_operator op) (List.enumerate n ps)) =
        map (\<lambda>x. (\<lambda>i. name op @ ''_'' @ str_nat i) (fst x)) (List.enumerate n ps)"
    by (simp add: safe_operator_def o_def)
  also have "\<dots> = map (\<lambda>i. name op @ ''_'' @ str_nat i) [n..<n + length ps]"
    by (rule map_fst_enumerate_fun)
  finally show ?thesis .
qed

text \<open>
  Claim C1, amended. An operator whose list of ambiguous effects (the effects that are
  neither the negation of a precondition literal nor a precondition literal themselves)
  has \<open>k \<ge> 1\<close> entries, all different, contributes exactly \<open>2 ^ k\<close> operators to the
  result of \<open>get_safe_operators\<close>, at its own position: they are named with the original
  name followed by \<open>_1\<close> \<dots> \<open>_2^k\<close> in this order, each has the cost of the original, and
  their effect sets are pairwise different and are exactly the sets \<open>E_settled \<union> S\<close> for
  the subsets \<open>S\<close> of the ambiguous effects.
\<close>

theorem C1_power_set_expansion:
  assumes amb: "not_negated_effects op \<noteq> []"
    and dist: "distinct (not_negated_effects op)"
  shows "get_safe_operators (before @ op # after) =
           get_safe_operators before @ expand_operator op @ get_safe_operators after
       \<and> length (expand_operator op) = 2 ^ length (not_negated_effects op)
       \<and> map name (expand_operator op) =
           map (\<lambda>i. name op @ ''_'' @ str_nat i) [1..<2 ^ length (not_negated_effects op) + 1]
       \<and> map cost (expand_operator op) = replicate (2 ^ length (not_negated_effects op)) (cost op)
       \<and> distinct (map (\<lambda>o'. set (effects_of o')) (expand_operator op))
       \<and> set (map (\<lambda>o'. set (effects_of o')) (expand_operator op)) =
           (\<lambda>S. set (negated_effects op) \<union> S) ` Pow (set (not_negated_effects op))"
proof -
  let ?nne = "not_negated_effects op"
  let ?ps = "powerset ?nne"
  note ex = expand_operator_ambiguous [OF amb]
  have len: "length (expand_operator op) = 2 ^ length ?nne"
    by (simp add: ex length_powerset)
  have names: "map name (expand_operator op) =
           map (\<lambda>i. name op @ ''_'' @ str_nat i) [1..<2 ^ length ?nne + 1]"
    unfolding ex map_names by (simp add: length_powerset)
  have costs: "map cost (expand_operator op) = replicate (2 ^ length ?nne) (cost op)"
    by (simp add: ex safe_operator_def o_def map_replicate_const length_powerset)
  have sets: "map (\<lambda>o'. set (effects_of o')) (expand_operator op) =
        map (\<lambda>S. set (negated_effects op) \<union> S) (map set ?ps)"
    unfolding ex by (rule map_effect_sets)
  have pow: "set (map set ?ps) = Pow (set ?nne)"
    using subseqs_powset [of ?nne] by (simp add: set_powerset)
  have inj: "inj_on (\<lambda>S. set (negated_effects op) \<union> S) (set (map set ?ps))"
    unfolding pow using negated_effects_disjoint [of op] by (auto simp: inj_on_def)
  have d: "distinct (map (\<lambda>o'. set (effects_of o')) (expand_operator op))"
    unfolding sets using distinct_map_set_powerset [OF dist] inj
    by (subst distinct_map) blast
  have s: "set (map (\<lambda>o'. set (effects_of o')) (expand_operator op)) =
           (\<lambda>S. set (negated_effects op) \<union> S) ` Pow (set ?nne)"
  proof -
    have "set (map (\<lambda>S. set (negated_effects op) \<union> S) (map set ?ps)) =
          (\<lambda>S. set (negated_effects op) \<union> S) ` set (map set ?ps)"
      by (rule set_map)
    then show ?thesis by (simp only: sets pow)
  qed
  show ?thesis using len names costs d s get_safe_operators_block by blast
qed

theorem C1_witness:
  "not_negated_effects ex_y \<noteq> [] \<and> distinct (not_negated_effects ex_y)
   \<and> length (not_negated_effects ex_y) = 2
   \<and> get_safe_operators [ex_x, ex_y] = get_safe_operators [ex_x] @ expand_operator ex_y
   \<and> length (expand_operator ex_y) = 4
   \<and> map name (expand_operator ex_y) = [''y_1'', ''y_2'', ''y_3'', ''y_4'']
   \<and> map cost (expand_operator ex_y) = [3, 3, 3, 3]
   \<and> distinct (map (\<lambda>o'. set (effects_of o')) (expand_operator ex_y))
   \<and> set (map (\<lambda>o'. set (effects_of o')) (expand_operator ex_y)) =
        (\<lambda>S. set (negated_effects ex_y) \<union> S) ` Pow (set (not_negated_effects ex_y))"
proof -
  have nne: "not_negated_effects ex_y = [atom_c, negate atom_d]"
    by code_simp
  have h1: "not_negated_effects ex_y \<noteq> []" and h2: "distinct (not_negated_effects ex_y)"
    by (simp_all add: nne atom_c_def atom_d_def negate_def)
  have up: "[1..<5] = [1, 2, 3, Suc 3]"
    by (simp add: upt_rec)
  have s: "map (\<lambda>i. ''y'' @ ''_'' @ str_nat i) [1..<5] = [''y_1'', ''y_2'', ''y_3'', ''y_4'']"
    by code_simp
  have nm: "name ex_y = ''y''" and cs: "cost ex_y = 3"
    by (simp_all add: ex_y_def)
  show ?thesis
    using C1_power_set_expansion [OF h1 h2, of "[ex_x]" "[]"] h1 h2 s
    by (simp add: nne nm cs get_safe_operators_def numeral_eq_Suc)
qed

theorem C1_counterexample:
  "card (set (not_negated_effects ex_dup)) = 1
   \<and> length (get_safe_operators [ex_dup]) = 4
   \<and> length (get_safe_operators [ex_dup]) \<noteq> 2 ^ card (set (not_negated_effects ex_dup))
   \<and> card (set (map (\<lambda>o'. set (effects_of o')) (get_safe_operators [ex_dup]))) = 2"
  by code_simp

lemma set_fold_py_add:
  "set (fold (\<lambda>x p. if P x then py_add (f x) p else py_add (g x) p) xs p0) =
     set p0 \<union> {f x | x. x \<in> set xs \<and> P x} \<union> {g x | x. x \<in> set xs \<and> \<not> P x}"
  by (induction xs arbitrary: p0) auto

lemma in_safe_effects_iff:
  "x \<in> set (not_negated_effects op) \<Longrightarrow>
   x \<in> set (safe_effects op eprime) \<longleftrightarrow> x \<in> set eprime"
  using negated_effects_disjoint [of op] by (auto simp: safe_effects_def)

lemma set_safe_precondition:
  "set (safe_precondition op eprime) =
     set (preconditions_atoms (precondition op))
     \<union> {Lit (negate e) | e. e \<in> set (not_negated_effects op) \<and> e \<in> set eprime}
     \<union> {Lit e | e. e \<in> set (not_negated_effects op) \<and> e \<notin> set eprime}"
  unfolding safe_precondition_def set_fold_py_add orig_pre_def
  using in_safe_effects_iff [of _ op eprime] by auto

lemma nth_enumerate_powerset:
  "j < length ps \<Longrightarrow> map f (List.enumerate n ps) ! j = f (n + j, ps ! j)"
  by (simp add: nth_enumerate_eq)

text \<open>
  Claim C2, amended. For an operator with ambiguous effects, the operator synthesized for
  the \<open>j\<close>-th subset of the power set has the effect set \<open>E_settled \<union> subset\<close>, and its
  precondition is the set of the original precondition's atoms plus, for every ambiguous
  effect, the negation of the effect when the effect is in the subset and the effect
  itself when it is not.
\<close>

theorem C2_precondition_of_safe_operator:
  assumes amb: "not_negated_effects op \<noteq> []"
    and j: "j < 2 ^ length (not_negated_effects op)"
  shows "set (effects_of (expand_operator op ! j)) =
           set (negated_effects op) \<union> set (powerset (not_negated_effects op) ! j)
       \<and> set (precondition (expand_operator op ! j)) =
           set (preconditions_atoms (precondition op))
           \<union> {Lit (negate e) | e. e \<in> set (not_negated_effects op)
                                  \<and> e \<in> set (powerset (not_negated_effects op) ! j)}
           \<union> {Lit e | e. e \<in> set (not_negated_effects op)
                         \<and> e \<notin> set (powerset (not_negated_effects op) ! j)}"
proof -
  let ?ps = "powerset (not_negated_effects op)"
  have j': "j < length ?ps" using j by (simp add: length_powerset)
  have nth: "expand_operator op ! j = safe_operator op (1 + j, ?ps ! j)"
    unfolding expand_operator_ambiguous [OF amb] by (rule nth_enumerate_powerset [OF j'])
  have e: "set (effects_of (expand_operator op ! j)) = set (negated_effects op) \<union> set (?ps ! j)"
    unfolding nth by (simp add: set_effects_of_safe_operator)
  have "precondition (expand_operator op ! j) = safe_precondition op (?ps ! j)"
    unfolding nth by (simp add: safe_operator_def)
  then show ?thesis
    using e by (simp only: set_safe_precondition)
qed

theorem C2_witness:
  "not_negated_effects ex_x \<noteq> [] \<and> (1::nat) < 2 ^ length (not_negated_effects ex_x)
   \<and> powerset (not_negated_effects ex_x) ! 1 = [atom_d]
   \<and> set (effects_of (expand_operator ex_x ! 1)) = {negate atom_a, atom_d}
   \<and> set (precondition (expand_operator ex_x ! 1)) =
        {Lit atom_a, Lit (negate atom_b), Lit (negate atom_d)}"
proof -
  have nne: "not_negated_effects ex_x = [atom_d]"
    by code_simp
  have neg: "negated_effects ex_x = [negate atom_a]"
    by code_simp
  have pa: "preconditions_atoms (precondition ex_x) = [Lit atom_a, Lit (negate atom_b)]"
    by code_simp
  have ps: "powerset [atom_d] = [[], [atom_d]]"
    by code_simp
  have h1: "not_negated_effects ex_x \<noteq> []" and h2: "(1::nat) < 2 ^ length (not_negated_effects ex_x)"
    by (simp_all add: nne)
  show ?thesis
    using C2_precondition_of_safe_operator [OF h1 h2] h1 h2
    by (auto simp: nne neg pa ps)
qed

theorem C2_counterexample:
  "set (effects_of (get_safe_operators [ex_x] ! 1)) = {negate atom_a, atom_d}
   \<and> set (effects_of (get_safe_operators [ex_x] ! 0)) = {negate atom_a}
   \<and> set (precondition (get_safe_operators [ex_x] ! 1)) \<noteq>
        set (preconditions_atoms (precondition ex_x)) \<union> {Lit atom_d}
   \<and> set (precondition (get_safe_operators [ex_x] ! 0)) \<noteq>
        set (preconditions_atoms (precondition ex_x)) \<union> {Lit (negate atom_d)}"
  by code_simp

lemma not_negated_effect_iff:
  "not_negated_effect eff pre \<longleftrightarrow>
     Lit (negate eff) \<notin> set (preconditions_atoms pre) \<and> Lit eff \<notin> set (preconditions_atoms pre)"
  by (induction pre) (auto simp: preconditions_atoms_def list_ex_iff)

lemma effects_of_expand_operator:
  "o' \<in> set (expand_operator op) \<Longrightarrow> set (negated_effects op) \<subseteq> set (effects_of o')"
  by (auto simp: expand_operator_def set_effects_of_safe_operator negated_effects_def
      split: if_splits)

text \<open>
  Claim C3, amended. An effect literal that also occurs verbatim (same atom, same polarity)
  among the precondition literals is never ambiguous: \<open>not_negated_effect\<close> answers
  False for it, so it is placed in the settled set, and it occurs in the effect set of every
  operator produced for that input operator.
\<close>

theorem C3_verbatim_effect_is_settled:
  assumes eff: "eff \<in> set (effects_of op)"
    and pre: "Lit eff \<in> set (preconditions_atoms (precondition op))"
  shows "eff \<notin> set (not_negated_effects op) \<and> eff \<in> set (negated_effects op)
       \<and> list_all (\<lambda>o'. eff \<in> set (effects_of o')) (expand_operator op)"
proof -
  have a: "eff \<notin> set (not_negated_effects op)"
    using pre by (simp add: not_negated_effects_def not_negated_effect_iff)
  have b: "eff \<in> set (negated_effects op)"
    using a eff by (simp add: negated_effects_def)
  have c: "list_all (\<lambda>o'. eff \<in> set (effects_of o')) (expand_operator op)"
    using b effects_of_expand_operator [of _ op] by (auto simp: list_all_iff)
  show ?thesis using a b c by simp
qed

theorem C3_witness:
  "atom_a \<in> set (effects_of ex_v) \<and> Lit atom_a \<in> set (preconditions_atoms (precondition ex_v))
   \<and> atom_a \<notin> set (not_negated_effects ex_v) \<and> atom_a \<in> set (negated_effects ex_v)
   \<and> list_all (\<lambda>o'. atom_a \<in> set (effects_of o')) (expand_operator ex_v)
   \<and> length (expand_operator ex_v) = 2"
proof -
  have h1: "atom_a \<in> set (effects_of ex_v)"
    by code_simp
  have h2: "Lit atom_a \<in> set (preconditions_atoms (precondition ex_v))"
    by code_simp
  have l: "length (expand_operator ex_v) = 2"
    by code_simp
  show ?thesis
    using C3_verbatim_effect_is_settled [OF h1 h2] h1 h2 l by simp
qed

theorem C3_counterexample:
  "Lit atom_a \<in> set (preconditions_atoms (precondition ex_v))
   \<and> atom_a \<in> set (effects_of ex_v)
   \<and> atom_a \<in> set (negated_effects ex_v)
   \<and> atom_a \<in> set (effects_of (get_safe_operators [ex_v] ! 0))
   \<and> atom_a \<in> set (effects_of (get_safe_operators [ex_v] ! 1))"
  by code_simp

section \<open>Removing negative preconditions\<close>

lemma map_of_dict_set: "map_of (dict_set d k v) = (map_of d)(k \<mapsto> v)"
  by (induction d k v rule: dict_set.induct) auto

lemma map_fst_dict_set:
  "map fst (dict_set d k v) = (if k \<in> fst ` set d then map fst d else map fst d @ [k])"
  by (induction d k v rule: dict_set.induct) (auto simp: image_iff)

lemma map_of_add_literals:
  "map_of (add_literals ls d) k =
     (if k \<in> set ls \<and> negated k then Some (not_atom k) else map_of d k)"
  unfolding add_literals_def
  by (induction ls arbitrary: d) (auto simp: map_of_dict_set)

lemma add_literals_simps [simp]:
  "add_literals [] d = d"
  "add_literals (l # ls) d = add_literals ls (if negated l then dict_set d l (not_atom l) else d)"
  by (simp_all add: add_literals_def)

lemma add_literals_append: "add_literals (xs @ ys) d = add_literals ys (add_literals xs d)"
  by (simp add: add_literals_def)

lemma negated_preconds_loop_eq:
  "negated_preconds_loop ics al np =
     (if list_all (\<lambda>ic. is_Lit (snd ic)) ics
      then Inr (add_literals (lits_of (map snd ics)) al,
                np @ map fst (filter (\<lambda>ic. is_negated_Lit (snd ic)) ics))
      else Inl AttributeError)"
  by (induction ics al np rule: negated_preconds_loop.induct) auto

lemma replace_loop_nth:
  assumes "distinct js"
    and "\<forall>j\<in>set js. j < length cur \<and> (\<exists>l. cur ! j = Lit l \<and> negated l
                           \<and> dict_get al l = Inr (not_atom l))"
  shows "\<exists>res. replace_loop js al cur = Inr res \<and> length res = length cur
           \<and> (\<forall>j<length cur. res ! j = (if j \<in> set js then rewrite_cond (cur ! j) else cur ! j))"
  using assms
proof (induction js arbitrary: cur)
  case Nil
  then show ?case by simp
next
  case (Cons i js)
  from Cons.prems obtain l where i: "i < length cur" and l: "cur ! i = Lit l" "negated l"
      "dict_get al l = Inr (not_atom l)" by auto
  let ?cur = "cur[i := Lit (not_atom l)]"
  have d: "distinct js" and ni: "i \<notin> set js" using Cons.prems(1) by auto
  have "\<forall>j\<in>set js. j < length ?cur \<and> (\<exists>l. ?cur ! j = Lit l \<and> negated l
                           \<and> dict_get al l = Inr (not_atom l))"
    using Cons.prems(2) ni by (auto simp: nth_list_update)
  from Cons.IH [OF d this] obtain res where res: "replace_loop js al ?cur = Inr res"
    "length res = length ?cur"
    "\<forall>j<length ?cur. res ! j = (if j \<in> set js then rewrite_cond (?cur ! j) else ?cur ! j)"
    by blast
  have "replace_loop (i # js) al cur = Inr res"
    using i l res(1) by simp
  moreover have "length res = length cur" using res(2) by simp
  moreover have "\<forall>j<length cur. res ! j = (if j \<in> set (i # js) then rewrite_cond (cur ! j) else cur ! j)"
    using res(3) ni l i by (auto simp: nth_list_update)
  ultimately show ?case by blast
qed

lemma set_negated_indices:
  "set (map fst (filter (\<lambda>ic. is_negated_Lit (snd ic)) (List.enumerate 0 pre))) =
     {j. j < length pre \<and> is_negated_Lit (pre ! j)}"
  by (auto simp: in_set_enumerate_eq image_iff)

lemma distinct_negated_indices:
  "distinct (map fst (filter (\<lambda>ic. is_negated_Lit (snd ic)) (List.enumerate n pre)))"
  by (rule distinct_map_filter) (simp add: map_fst_enumerate)

lemma Lit_in_lits_of: "Lit l \<in> set pre \<Longrightarrow> l \<in> set (lits_of pre)"
  by (induction pre rule: lits_of.induct) auto

lemma lits_of_in_set: "l \<in> set (lits_of pre) \<Longrightarrow> Lit l \<in> set pre"
  by (induction pre rule: lits_of.induct) auto

lemma is_negated_Lit_iff: "is_negated_Lit c \<longleftrightarrow> (\<exists>l. c = Lit l \<and> negated l)"
  by (cases c) auto

lemma rewrite_cond_not_negated: "\<not> is_negated_Lit c \<Longrightarrow> rewrite_cond c = c"
  by (cases c) auto

lemma replace_loop_eq:
  assumes "\<forall>l. Lit l \<in> set pre \<and> negated l \<longrightarrow> dict_get al l = Inr (not_atom l)"
  shows "replace_loop (map fst (filter (\<lambda>ic. is_negated_Lit (snd ic)) (List.enumerate 0 pre))) al pre
         = Inr (map rewrite_cond pre)"
proof -
  let ?js = "map fst (filter (\<lambda>ic. is_negated_Lit (snd ic)) (List.enumerate 0 pre))"
  have js: "set ?js = {j. j < length pre \<and> is_negated_Lit (pre ! j)}"
    by (rule set_negated_indices)
  have "\<forall>j\<in>set ?js. j < length pre \<and> (\<exists>l. pre ! j = Lit l \<and> negated l
                           \<and> dict_get al l = Inr (not_atom l))"
    unfolding js using assms by (auto simp: is_negated_Lit_iff) (metis nth_mem)
  from replace_loop_nth [OF distinct_negated_indices this]
  obtain res where res: "replace_loop ?js al pre = Inr res" "length res = length pre"
    "\<forall>j<length pre. res ! j = (if j \<in> set ?js then rewrite_cond (pre ! j) else pre ! j)"
    by blast
  have "res = map rewrite_cond pre"
  proof (rule nth_equalityI)
    show "length res = length (map rewrite_cond pre)" using res(2) by simp
  next
    fix j assume "j < length res"
    then have j: "j < length pre" using res(2) by simp
    show "res ! j = map rewrite_cond pre ! j"
      using res(3) j unfolding js by (simp add: rewrite_cond_not_negated)
  qed
  with res(1) show ?thesis by simp
qed

lemma new_effects_loop_eq:
  "new_effects_loop effs al new = (add_literals effs al, new @ map not_atom effs)"
  by (induction effs al new rule: new_effects_loop.induct) auto

lemma map_snd_enumerate_id: "map snd (List.enumerate n xs) = xs"
  by (rule map_snd_enumerate)

lemma list_all_snd_enumerate:
  "list_all (\<lambda>ic. P (snd ic)) (List.enumerate n xs) = list_all P xs"
proof -
  have "list_all (\<lambda>ic. P (snd ic)) (List.enumerate n xs) = list_all P (map snd (List.enumerate n xs))"
    unfolding list_all_iff set_map by blast
  then show ?thesis by (simp only: map_snd_enumerate)
qed

lemma remove_negative_preconditions_op_eq:
  "remove_negative_preconditions_op op al =
     (if list_all is_Lit (precondition op)
      then Inr (PropositionalAction (name op) (map rewrite_cond (precondition op))
                  (map (\<lambda>eff. ([], eff)) (effects_of op @ map not_atom (effects_of op)))
                  (cost op),
                add_literals (effects_of op) (add_literals (lits_of (precondition op)) al))
      else Inl AttributeError)"
proof (cases "list_all is_Lit (precondition op)")
  case False
  then show ?thesis
    by (simp add: remove_negative_preconditions_op_def negated_preconds_loop_eq
        list_all_snd_enumerate)
next
  case True
  let ?al1 = "add_literals (lits_of (precondition op)) al"
  have "\<forall>l. Lit l \<in> set (precondition op) \<and> negated l \<longrightarrow> dict_get ?al1 l = Inr (not_atom l)"
    by (auto simp: dict_get_def map_of_add_literals Lit_in_lits_of)
  from replace_loop_eq [OF this] True show ?thesis
    by (simp add: remove_negative_preconditions_op_def negated_preconds_loop_eq
        list_all_snd_enumerate map_snd_enumerate new_effects_loop_eq)
qed

lemma positive_rewrite_cond: "is_Lit c \<Longrightarrow> is_Lit (rewrite_cond c) \<and> positive_cond (rewrite_cond c)"
  by (cases c) (auto simp: not_atom_def)

lemma PropositionalAction_effects_positive:
  "list_all (\<lambda>e. \<not> negated (snd e)) (add_effects (PropositionalAction nm pre effs c))"
  "list_all (\<lambda>e. \<not> negated (snd e)) (del_effects (PropositionalAction nm pre effs c))"
  by (auto simp: PropositionalAction_def list_all_iff)

lemma remove_negative_preconditions_op_positive:
  assumes "remove_negative_preconditions_op op al = Inr (op', al')"
  shows "positive_operator op'"
proof -
  from assms have lits: "list_all is_Lit (precondition op)"
    and op': "op' = PropositionalAction (name op) (map rewrite_cond (precondition op))
                  (map (\<lambda>eff. ([], eff)) (effects_of op @ map not_atom (effects_of op)))
                  (cost op)"
    by (auto simp: remove_negative_preconditions_op_eq split: if_splits)
  have "list_all (\<lambda>c. is_Lit c \<and> positive_cond c) (map rewrite_cond (precondition op))"
    using lits positive_rewrite_cond by (auto simp: list_all_iff)
  then show ?thesis
    unfolding positive_operator_def op'
    using PropositionalAction_effects_positive by simp
qed

lemma remove_negative_preconditions_from_positive:
  "remove_negative_preconditions_from ops al = Inr (ops', al') \<Longrightarrow> list_all positive_operator ops'"
proof (induction ops arbitrary: al ops' al')
  case Nil
  then show ?case by simp
next
  case (Cons op ops)
  from Cons.prems obtain op1 al1 rest where
    a: "remove_negative_preconditions_op op al = Inr (op1, al1)"
    and b: "remove_negative_preconditions_from ops al1 = Inr (rest, al')"
    and c: "ops' = op1 # rest"
    by (auto split: sum.splits prod.splits)
  show ?case
    unfolding c
    using remove_negative_preconditions_op_positive [OF a] Cons.IH [OF b] by simp
qed

text \<open>
  Claim C4. When \<open>remove_negative_preconditions\<close> returns, every precondition entry of
  every operator of the list is a literal of positive polarity, and so is every atom among
  the add-effects and the del-effects of every operator.
\<close>

theorem C4_no_negative_polarity:
  assumes "remove_negative_preconditions safe_operators = Inr (ops, additional_literals)"
  shows "list_all (\<lambda>op. list_all (\<lambda>c. is_Lit c \<and> positive_cond c) (precondition op)
                      \<and> list_all (\<lambda>e. \<not> negated (snd e)) (add_effects op)
                      \<and> list_all (\<lambda>e. \<not> negated (snd e)) (del_effects op)) ops"
  using remove_negative_preconditions_from_positive [of safe_operators "[]" ops additional_literals]
    assms
  by (simp add: remove_negative_preconditions_def positive_operator_def [abs_def])

theorem C4_witness:
  "remove_negative_preconditions (get_safe_operators [ex_x]) = Inr (hick_safe, hick_additional)
   \<and> list_all (\<lambda>op. list_all (\<lambda>c. is_Lit c \<and> positive_cond c) (precondition op)
                      \<and> list_all (\<lambda>e. \<not> negated (snd e)) (add_effects op)
                      \<and> list_all (\<lambda>e. \<not> negated (snd e)) (del_effects op)) hick_safe"
proof -
  have h: "remove_negative_preconditions (get_safe_operators [ex_x]) = Inr (hick_safe, hick_additional)"
    by code_simp
  show ?thesis using C4_no_negative_polarity [OF h] h by simp
qed

section \<open>The mapping to a Petri net\<close>

lemma set_clean_init_loop:
  "set (clean_init_loop init c) = set c \<union> {l. InitLiteral l \<in> set init \<and> \<not> negated l}"
  by (induction init c rule: clean_init_loop.induct) auto

lemma set_clean_init_filter:
  "set (clean_init_loop init []) = {l. InitLiteral l \<in> set (filter isinstance_Atom init)}"
  by (auto simp: set_clean_init_loop)

lemma atom_place_eq:
  "(if atom \<in> set clean then add_token (PetriPlace (str_literal atom))
    else PetriPlace (str_literal atom)) = atom_place clean atom"
  by (simp add: atom_place_def add_token_def add_tokens_def PetriPlace_def)

lemma added_place_eq:
  "(if positive orig \<notin> set clean then add_token (PetriPlace (str_literal added))
    else PetriPlace (str_literal added)) = added_place clean (orig, added)"
  by (simp add: added_place_def add_token_def add_tokens_def PetriPlace_def)

lemma atom_places_loop_eq:
  "atom_places_loop atoms clean (petri, d) =
     (petri \<lparr> places := places petri @ map (atom_place clean) atoms \<rparr>,
      fold (\<lambda>atom d. dict_set d atom (atom_place clean atom)) atoms d)"
proof (induction atoms arbitrary: petri d)
  case Nil
  then show ?case by simp
next
  case (Cons a atoms)
  show ?case
    by (simp add: Let_def atom_place_eq Cons.IH add_place_def del: if_split)
qed

lemma added_places_loop_eq:
  "added_places_loop al clean (petri, d) =
     (petri \<lparr> places := places petri @ map (added_place clean) al \<rparr>,
      fold (\<lambda>oa d. dict_set d (snd oa) (added_place clean oa)) al d)"
proof (induction al arbitrary: petri d)
  case Nil
  then show ?case by simp
next
  case (Cons oa al)
  obtain orig added where oa: "oa = (orig, added)" by (cases oa)
  show ?case
    unfolding oa
    by (simp add: Let_def added_place_eq Cons.IH add_place_def del: if_split)
qed

lemma transitions_loop_eq:
  "transitions_loop d ops petri = Inr net \<Longrightarrow>
     places net = places petri
     \<and> (\<exists>ts. transitions net = transitions petri @ ts
             \<and> list_all2 (\<lambda>op t. transition_of d op = Inr t) ops ts)"
proof (induction ops arbitrary: petri)
  case Nil
  then show ?case by simp
next
  case (Cons op ops)
  from Cons.prems obtain t where t: "transition_of d op = Inr t"
    and r: "transitions_loop d ops (add_transition petri t) = Inr net"
    by (auto split: sum.splits)
  from Cons.IH [OF r] obtain ts where
    p: "places net = places (add_transition petri t)"
    and ts: "transitions net = transitions (add_transition petri t) @ ts"
    "list_all2 (\<lambda>op t. transition_of d op = Inr t) ops ts"
    by blast
  have "transitions net = transitions petri @ (t # ts)"
    using ts(1) by (simp add: add_transition_def)
  moreover have "list_all2 (\<lambda>op t. transition_of d op = Inr t) (op # ops) (t # ts)"
    using t ts(2) by simp
  moreover have "places net = places petri" using p by (simp add: add_transition_def)
  ultimately show ?case by blast
qed

lemma petri_mapping_eq:
  "petri_mapping atoms al ops init =
     transitions_loop (places_dict_of (clean_init_loop init []) atoms al) ops
       \<lparr> places = map (atom_place (clean_init_loop init [])) atoms
                  @ map (added_place (clean_init_loop init [])) al,
         transitions = [] \<rparr>"
  by (simp add: petri_mapping_def Let_def atom_places_loop_eq added_places_loop_eq
      PetriNet_def places_dict_of_def)

lemma petri_mapping_Inr:
  assumes "petri_mapping atoms al ops init = Inr net"
  shows "places net = map (atom_place (clean_init_loop init [])) atoms
                  @ map (added_place (clean_init_loop init [])) al"
    and "list_all2 (\<lambda>op t. transition_of (places_dict_of (clean_init_loop init []) atoms al) op
                              = Inr t) ops (transitions net)"
  using transitions_loop_eq [OF assms [unfolded petri_mapping_eq]] by auto

text \<open>
  Claim C5. The places of the net built by \<open>petri_mapping\<close> are one place per entry of
  the atom list, named by the atom's string form and holding one token if the atom is an
  \<open>Atom\<close> of the initial-state list and no token otherwise, followed by one place per
  entry of the complement mapping, named by the complement's string form and holding one
  token if the positive form of the original is not in the initial-state list and no token
  otherwise; the net has no other place.
\<close>

theorem C5_places_and_initial_marking:
  assumes "petri_mapping atoms additional_literals safe_operators init = Inr net"
  shows "places net =
           map (\<lambda>atom. \<lparr> place_name = str_literal atom,
                         tokens = (if InitLiteral atom \<in> set init \<and> \<not> negated atom
                                   then 1 else 0) \<rparr>) atoms
           @ map (\<lambda>(orig, added). \<lparr> place_name = str_literal added,
                         tokens = (if InitLiteral (positive orig) \<in> set init
                                   then 0 else 1) \<rparr>) additional_literals"
proof -
  have a: "atom_place (clean_init_loop init []) =
             (\<lambda>atom. \<lparr> place_name = str_literal atom,
                         tokens = (if InitLiteral atom \<in> set init \<and> \<not> negated atom
                                   then 1 else 0) \<rparr>)"
    by (rule ext) (simp add: atom_place_def set_clean_init_loop)
  have b: "added_place (clean_init_loop init []) =
             (\<lambda>(orig, added). \<lparr> place_name = str_literal added,
                         tokens = (if InitLiteral (positive orig) \<in> set init
                                   then 0 else 1) \<rparr>)"
    by (rule ext) (simp add: added_place_def set_clean_init_loop positive_def split: prod.splits)
  show ?thesis
    using petri_mapping_Inr(1) [OF assms] unfolding a b .
qed

lemma atom_place_cong: "set c1 = set c2 \<Longrightarrow> atom_place c1 = atom_place c2"
  by (rule ext) (simp add: atom_place_def)

lemma added_place_cong: "set c1 = set c2 \<Longrightarrow> added_place c1 = added_place c2"
  by (rule ext) (simp add: added_place_def)

text \<open>
  Claim C10. \<open>petri_mapping\<close> ignores every entry of the initial-state list that is no
  \<open>Atom\<close>: two initial-state lists with the same \<open>Atom\<close> entries give the same result,
  and so the same places with the same markings.
\<close>

theorem C10_non_atoms_of_init_are_ignored:
  assumes "set (filter isinstance_Atom init1) = set (filter isinstance_Atom init2)"
  shows "petri_mapping atoms additional_literals safe_operators init1 =
         petri_mapping atoms additional_literals safe_operators init2"
proof -
  have s: "set (clean_init_loop init1 []) = set (clean_init_loop init2 [])"
    unfolding set_clean_init_filter using assms by simp
  show ?thesis
    unfolding petri_mapping_eq places_dict_of_def
      atom_place_cong [OF s] added_place_cong [OF s] ..
qed

lemma lookup_places_all2:
  "lookup_places d xs = Inr ps \<Longrightarrow> list_all2 (\<lambda>x p. map_of d x = Some p) xs ps"
proof (induction xs arbitrary: ps)
  case Nil
  then show ?case by simp
next
  case (Cons x xs)
  then show ?case
    by (auto simp: dict_get_def split: sum.splits option.splits)
qed

lemma map_of_fold_dict_set:
  assumes "map_of (fold (\<lambda>x d. dict_set d (key x) (val x)) xs d) k = Some p"
  shows "map_of d k = Some p \<or> (\<exists>x\<in>set xs. key x = k \<and> val x = p)"
  using assms
proof (induction xs arbitrary: d)
  case Nil
  then show ?case by simp
next
  case (Cons x xs)
  from Cons.IH [OF Cons.prems [simplified]]
  show ?case by (auto simp: map_of_dict_set split: if_splits)
qed

lemma places_dict_of_Some:
  assumes "map_of (places_dict_of clean atoms al) l = Some p"
  shows "place_name p = str_literal l
       \<and> p \<in> set (map (atom_place clean) atoms @ map (added_place clean) al)"
proof -
  from map_of_fold_dict_set [OF assms [unfolded places_dict_of_def]]
  consider (a) "map_of (fold (\<lambda>atom d. dict_set d atom (atom_place clean atom)) atoms []) l = Some p"
    | (b) oa where "oa \<in> set al" "snd oa = l" "added_place clean oa = p"
    by blast
  then show ?thesis
  proof cases
    case a
    from map_of_fold_dict_set [OF a] obtain atom where "atom \<in> set atoms" "atom = l"
      "atom_place clean atom = p" by auto
    then show ?thesis by (auto simp: atom_place_def)
  next
    case b
    then show ?thesis by (auto simp: added_place_def)
  qed
qed

lemma preservation_loop_prefix:
  "\<exists>kept. preservation_loop pre dels dests = dests @ kept"
proof (induction pre arbitrary: dests)
  case Nil
  then show ?case by simp
next
  case (Cons p pre)
  from Cons.IH [of "dests @ [p]"] Cons.IH [of dests] show ?case
    by (cases "str_literal p \<notin> set (map str_literal dests) \<and> str_literal p \<notin> set dels")
       auto
qed

lemma set_preservation_loop:
  "set (preservation_loop pre dels dests) \<subseteq> set dests \<union> set pre"
proof (induction pre arbitrary: dests)
  case Nil
  then show ?case by simp
next
  case (Cons p pre)
  from Cons.IH [of "dests @ [p]"] Cons.IH [of dests] show ?case
    by (cases "str_literal p \<notin> set (map str_literal dests) \<and> str_literal p \<notin> set dels")
       auto
qed

lemma strs_preservation_loop:
  "set (map str_literal (preservation_loop pre dels dests)) =
     set (map str_literal dests) \<union> (set (map str_literal pre) - set dels)"
proof (induction pre arbitrary: dests)
  case Nil
  then show ?case by simp
next
  case (Cons p pre)
  show ?case
  proof (cases "str_literal p \<notin> set (map str_literal dests) \<and> str_literal p \<notin> set dels")
    case True
    then have "preservation_loop (p # pre) dels dests = preservation_loop pre dels (dests @ [p])"
      by simp
    then show ?thesis using True Cons.IH [of "dests @ [p]"] by auto
  next
    case False
    then have "preservation_loop (p # pre) dels dests = preservation_loop pre dels dests"
      by auto
    then show ?thesis using False Cons.IH [of dests] by auto
  qed
qed

lemma kept_ok_append:
  assumes "kept_ok n dels dests" and "n \<le> length dests"
    and "str_literal p \<notin> set (map str_literal dests)" and "str_literal p \<notin> set dels"
  shows "kept_ok n dels (dests @ [p])"
proof -
  have split: "set (map str_literal dests) =
               set (map str_literal (take n dests)) \<union> set (map str_literal (drop n dests))"
    by (metis append_take_drop_id map_append set_append)
  have a: "str_literal p \<notin> set (map str_literal (take n dests))"
    and b: "str_literal p \<notin> set (map str_literal (drop n dests))"
    using assms(3) unfolding split by blast+
  have dr: "drop n (dests @ [p]) = drop n dests @ [p]"
    and tk: "take n (dests @ [p]) = take n dests"
    using assms(2) by simp_all
  show ?thesis
    using assms(1,4) a b unfolding kept_ok_def dr tk by auto
qed

lemma kept_ok_preservation_loop:
  "kept_ok n dels dests \<Longrightarrow> n \<le> length dests \<Longrightarrow>
   kept_ok n dels (preservation_loop pre dels dests)"
proof (induction pre arbitrary: dests)
  case Nil
  then show ?case by simp
next
  case (Cons p pre)
  show ?case
  proof (cases "str_literal p \<notin> set (map str_literal dests) \<and> str_literal p \<notin> set dels")
    case True
    then have eq: "preservation_loop (p # pre) dels dests = preservation_loop pre dels (dests @ [p])"
      by simp
    have "kept_ok n dels (dests @ [p])"
      using kept_ok_append [OF Cons.prems] True by blast
    then show ?thesis unfolding eq using Cons.IH [of "dests @ [p]"] Cons.prems(2) by simp
  next
    case False
    then have eq: "preservation_loop (p # pre) dels dests = preservation_loop pre dels dests"
      by auto
    show ?thesis unfolding eq using Cons.IH Cons.prems by blast
  qed
qed

lemma kept_preconditions_props:
  "preservation_loop (lits_of (precondition op))
          (map (\<lambda>dele. str_literal (snd dele)) (del_effects op))
          (map snd (add_effects op)) = map snd (add_effects op) @ kept_preconditions op"
  "set (kept_preconditions op) \<subseteq> set (lits_of (precondition op))"
  "distinct (map str_literal (kept_preconditions op))"
  "\<forall>p\<in>set (lits_of (precondition op)).
      str_literal p \<in> set (map str_literal (kept_preconditions op)) \<longleftrightarrow>
        str_literal p \<notin> set (map (\<lambda>eff. str_literal (snd eff)) (add_effects op))
        \<and> str_literal p \<notin> set (map (\<lambda>dele. str_literal (snd dele)) (del_effects op))"
proof -
  let ?pre = "lits_of (precondition op)"
  let ?dels = "map (\<lambda>dele. str_literal (snd dele)) (del_effects op)"
  let ?adds = "map snd (add_effects op)"
  let ?n = "length (add_effects op)"
  let ?res = "preservation_loop ?pre ?dels ?adds"
  let ?kept = "kept_preconditions op"
  from preservation_loop_prefix [of ?pre ?dels ?adds] obtain kept where
    k: "?res = ?adds @ kept" by blast
  have kp: "?kept = kept"
    by (simp add: kept_preconditions_def k)
  show res: "?res = ?adds @ ?kept" using k kp by simp
  have ok0: "kept_ok ?n ?dels ?adds" by (simp add: kept_ok_def)
  have ok: "kept_ok ?n ?dels ?res"
    by (rule kept_ok_preservation_loop [OF ok0]) simp
  have dr: "drop ?n ?res = ?kept" and tk: "take ?n ?res = ?adds"
    unfolding res by simp_all
  from ok have d: "distinct (map str_literal ?kept)"
    and i1: "set (map str_literal ?kept) \<inter> set (map str_literal ?adds) = {}"
    and i2: "set (map str_literal ?kept) \<inter> set ?dels = {}"
    unfolding kept_ok_def dr tk by blast+
  show "distinct (map str_literal ?kept)" by (rule d)
  have strs: "set (map str_literal ?adds) \<union> set (map str_literal ?kept) =
        set (map str_literal ?adds) \<union> (set (map str_literal ?pre) - set ?dels)"
    using strs_preservation_loop [of ?pre ?dels ?adds] unfolding res by simp
  have sub: "set ?adds \<union> set ?kept \<subseteq> set ?adds \<union> set ?pre"
    using set_preservation_loop [of ?pre ?dels ?adds] unfolding res by simp
  show "set ?kept \<subseteq> set ?pre"
  proof
    fix x assume x: "x \<in> set ?kept"
    then have "str_literal x \<in> set (map str_literal ?kept)" by simp
    with i1 have "str_literal x \<notin> set (map str_literal ?adds)" by blast
    then have "x \<notin> set ?adds" by auto
    with x sub show "x \<in> set ?pre" by blast
  qed
  have adds: "set (map (\<lambda>eff. str_literal (snd eff)) (add_effects op)) = set (map str_literal ?adds)"
    by (simp add: image_image)
  show "\<forall>p\<in>set ?pre.
      str_literal p \<in> set (map str_literal ?kept) \<longleftrightarrow>
        str_literal p \<notin> set (map (\<lambda>eff. str_literal (snd eff)) (add_effects op))
        \<and> str_literal p \<notin> set ?dels"
  proof
    fix p assume p: "p \<in> set ?pre"
    then have mem: "str_literal p \<in> set (map str_literal ?pre)" by simp
    show "str_literal p \<in> set (map str_literal ?kept) \<longleftrightarrow>
        str_literal p \<notin> set (map (\<lambda>eff. str_literal (snd eff)) (add_effects op))
        \<and> str_literal p \<notin> set ?dels"
      unfolding adds using strs i1 i2 mem by blast
  qed
qed

lemma transition_of_Inr:
  assumes "transition_of d op = Inr t"
  shows "list_all is_Lit (precondition op)"
    and "list_all2 (\<lambda>x p. map_of d x = Some p) (lits_of (precondition op)) (origins t)"
    and "list_all2 (\<lambda>x p. map_of d x = Some p)
           (map snd (add_effects op) @ kept_preconditions op) (destinations t)"
    and "transition_name t = name op" and "transition_cost t = cost op"
proof -
  from assms show l: "list_all is_Lit (precondition op)"
    by (auto simp: transition_of_def split: if_splits)
  from assms l obtain os ds where
    os: "lookup_places d (lits_of (precondition op)) = Inr os"
    and ds: "lookup_places d (map snd (add_effects op) @ kept_preconditions op) = Inr ds"
    and t: "t = PetriTransition (name op) os ds (cost op)"
    by (auto simp: transition_of_def Let_def kept_preconditions_props(1) split: sum.splits)
  show "list_all2 (\<lambda>x p. map_of d x = Some p) (lits_of (precondition op)) (origins t)"
    using lookup_places_all2 [OF os] by (simp add: t PetriTransition_def)
  show "list_all2 (\<lambda>x p. map_of d x = Some p)
           (map snd (add_effects op) @ kept_preconditions op) (destinations t)"
    using lookup_places_all2 [OF ds] by (simp add: t PetriTransition_def)
  show "transition_name t = name op" "transition_cost t = cost op"
    by (simp_all add: t PetriTransition_def)
qed

lemma places_of_lookup:
  assumes "list_all2 (\<lambda>x p. map_of (places_dict_of clean atoms al) x = Some p) xs ps"
  shows "map place_name ps = map str_literal xs"
    and "set ps \<subseteq> set (map (atom_place clean) atoms @ map (added_place clean) al)"
proof -
  from assms show "map place_name ps = map str_literal xs"
    by (induction xs ps rule: list_all2_induct) (auto dest: places_dict_of_Some)
  from assms show "set ps \<subseteq> set (map (atom_place clean) atoms @ map (added_place clean) al)"
  proof (induction xs ps rule: list_all2_induct)
    case Nil
    then show ?case by simp
  next
    case (Cons x xs y ys)
    from places_dict_of_Some [OF Cons.hyps(1)] Cons.IH show ?case by simp
  qed
qed

text \<open>
  Claim C7. In the net built by \<open>petri_mapping\<close> the destinations of the transition of
  every operator are the places of its add-effects followed by the places of preconditions
  appended after them: a precondition literal has its string form among the appended ones
  exactly when that string is neither the string form of an add-effect nor the string form
  of a del-effect; each such string is appended once, and nothing else is appended.
\<close>

theorem C7_preservation_arcs:
  assumes pm: "petri_mapping atoms additional_literals safe_operators init = Inr net"
    and k: "k < length safe_operators"
  shows "length (transitions net) = length safe_operators
       \<and> list_all is_Lit (precondition (safe_operators ! k))
       \<and> map place_name (destinations (transitions net ! k)) =
           map str_literal (map snd (add_effects (safe_operators ! k))
                            @ kept_preconditions (safe_operators ! k))
       \<and> set (destinations (transitions net ! k)) \<subseteq> set (places net)
       \<and> set (kept_preconditions (safe_operators ! k))
           \<subseteq> set (lits_of (precondition (safe_operators ! k)))
       \<and> distinct (map str_literal (kept_preconditions (safe_operators ! k)))
       \<and> (\<forall>p\<in>set (lits_of (precondition (safe_operators ! k))).
            str_literal p \<in> set (map str_literal (kept_preconditions (safe_operators ! k)))
            \<longleftrightarrow> str_literal p \<notin> set (map (\<lambda>eff. str_literal (snd eff))
                                          (add_effects (safe_operators ! k)))
               \<and> str_literal p \<notin> set (map (\<lambda>dele. str_literal (snd dele))
                                          (del_effects (safe_operators ! k))))"
proof -
  let ?clean = "clean_init_loop init []"
  let ?d = "places_dict_of ?clean atoms additional_literals"
  let ?op = "safe_operators ! k"
  let ?t = "transitions net ! k"
  note all2 = petri_mapping_Inr(2) [OF pm]
  have len: "length (transitions net) = length safe_operators"
    using all2 by (simp add: list_all2_lengthD)
  have t: "transition_of ?d ?op = Inr ?t"
    using all2 k by (simp add: list_all2_conv_all_nth)
  note tr = transition_of_Inr [OF t]
  note pl = places_of_lookup [OF tr(3)]
  have sub: "set (destinations ?t) \<subseteq> set (places net)"
    using pl(2) petri_mapping_Inr(1) [OF pm] by simp
  show ?thesis
    using len tr(1) pl(1) sub kept_preconditions_props(2,3,4) [of ?op] by blast
qed

lemma hick_petri_mapping:
  "petri_mapping hick_atoms hick_additional hick_safe hick_init = Inr hick_net"
  by code_simp

theorem C5_witness:
  "petri_mapping hick_atoms hick_additional hick_safe hick_init = Inr hick_net
   \<and> places hick_net =
        map (\<lambda>atom. \<lparr> place_name = str_literal atom,
                      tokens = (if InitLiteral atom \<in> set hick_init \<and> \<not> negated atom
                                then 1 else 0) \<rparr>) hick_atoms
        @ map (\<lambda>(orig, added). \<lparr> place_name = str_literal added,
                      tokens = (if InitLiteral (positive orig) \<in> set hick_init
                                then 0 else 1) \<rparr>) hick_additional
   \<and> map tokens (places hick_net) = [1, 0, 0, 1, 0, 1]"
proof -
  have t: "map tokens (places hick_net) = [1, 0, 0, 1, 0, 1]"
    by code_simp
  show ?thesis
    using C5_places_and_initial_marking [OF hick_petri_mapping] hick_petri_mapping t by simp
qed

theorem C10_witness:
  "set (filter isinstance_Atom hick_init)
     = set (filter isinstance_Atom [InitLiteral (negate atom_b), InitLiteral atom_a])
   \<and> petri_mapping hick_atoms hick_additional hick_safe hick_init
     = petri_mapping hick_atoms hick_additional hick_safe
         [InitLiteral (negate atom_b), InitLiteral atom_a]
   \<and> petri_mapping hick_atoms hick_additional hick_safe
         [InitLiteral (negate atom_b), InitLiteral atom_a] = Inr hick_net"
proof -
  have h: "set (filter isinstance_Atom hick_init)
     = set (filter isinstance_Atom [InitLiteral (negate atom_b), InitLiteral atom_a])"
    by code_simp
  show ?thesis
    using C10_non_atoms_of_init_are_ignored [OF h, of hick_atoms hick_additional hick_safe]
      h hick_petri_mapping by simp
qed

theorem C7_witness:
  "petri_mapping hick_atoms hick_additional hick_safe hick_init = Inr hick_net
   \<and> (1::nat) < length hick_safe
   \<and> kept_preconditions (hick_safe ! 1) = [Literal ''not_b'' [] False]
   \<and> map place_name (destinations (transitions hick_net ! 1)) =
        [''Atom d()'', ''Atom not_a()'', ''Atom not_b()'']
   \<and> map place_name (destinations (transitions hick_net ! 1)) =
           map str_literal (map snd (add_effects (hick_safe ! 1))
                            @ kept_preconditions (hick_safe ! 1))
   \<and> set (destinations (transitions hick_net ! 1)) \<subseteq> set (places hick_net)
   \<and> distinct (map str_literal (kept_preconditions (hick_safe ! 1)))"
proof -
  have k: "(1::nat) < length hick_safe" by code_simp
  have kp: "kept_preconditions (hick_safe ! 1) = [Literal ''not_b'' [] False]"
    by code_simp
  have nm: "map place_name (destinations (transitions hick_net ! 1)) =
        [''Atom d()'', ''Atom not_a()'', ''Atom not_b()'']"
    by code_simp
  show ?thesis
    using C7_preservation_arcs [OF hick_petri_mapping k] hick_petri_mapping k kp nm
    by blast
qed

section \<open>The finite-domain encoding\<close>

lemma goals_loop_eq:
  "goals_loop goals nm var pg = pg @ concat (map (goal_pairs_of nm var) goals)"
  by (induction goals nm var pg rule: goals_loop.induct) (auto simp: Let_def)

lemma places_loop_ranges:
  "st_ranges (places_loop ps goals st) = st_ranges st @ replicate (length ps) 2"
proof (induction ps arbitrary: st)
  case Nil
  then show ?case by simp
next
  case (Cons p ps)
  show ?case
    by (simp add: Let_def Cons.IH replicate_app_Cons_same)
qed

lemma places_loop_place2var:
  "st_place2var (places_loop ps goals st) =
     fold (\<lambda>ip d. dict_set d (place_name (snd ip)) (fst ip))
       (List.enumerate (length (st_ranges st)) ps) (st_place2var st)"
proof (induction ps arbitrary: st)
  case Nil
  then show ?case by simp
next
  case (Cons p ps)
  show ?case
    by (simp add: Let_def Cons.IH)
qed

lemma places_loop_petri_goals:
  "st_petri_goals (places_loop ps goals st) =
     st_petri_goals st
     @ concat (map (\<lambda>ip. concat (map (goal_pairs_of (place_name (snd ip)) (fst ip)) goals))
                 (List.enumerate (length (st_ranges st)) ps))"
proof (induction ps arbitrary: st)
  case Nil
  then show ?case by simp
next
  case (Cons p ps)
  show ?case
    by (simp add: Let_def Cons.IH goals_loop_eq)
qed

lemma places_loop_init_values:
  "st_init_values (places_loop ps goals st) =
     st_init_values st @ map (\<lambda>p. if tokens p > 0 then 1 else 0) ps"
proof (induction ps arbitrary: st)
  case Nil
  then show ?case by simp
next
  case (Cons p ps)
  show ?case
    by (simp add: Let_def Cons.IH)
qed

lemma place2var_of_Some:
  assumes "map_of (place2var_of ps) nm = Some i"
  shows "i < length ps \<and> place_name (ps ! i) = nm"
proof -
  from map_of_fold_dict_set [OF assms [unfolded place2var_of_def]]
  obtain ip where "ip \<in> set (List.enumerate 0 ps)" "place_name (snd ip) = nm" "fst ip = i"
    by auto
  then show ?thesis by (auto simp: in_set_enumerate_eq)
qed

lemma map_of_fold_dict_set_mem:
  assumes "x \<in> set xs"
  shows "\<exists>p. map_of (fold (\<lambda>x d. dict_set d (key x) (val x)) xs d) (key x) = Some p"
  using assms
proof (induction xs arbitrary: d rule: rev_induct)
  case Nil
  then show ?case by simp
next
  case (snoc y ys)
  then show ?case by (auto simp: map_of_dict_set)
qed

lemma place2var_of_defined:
  assumes "p \<in> set ps"
  shows "\<exists>i. map_of (place2var_of ps) (place_name p) = Some i"
proof -
  from assms obtain i where i: "i < length ps" "ps ! i = p" by (auto simp: in_set_conv_nth)
  then have "(i, p) \<in> set (List.enumerate 0 ps)" by (auto simp: in_set_enumerate_eq)
  from map_of_fold_dict_set_mem [OF this, of "\<lambda>ip. place_name (snd ip)" fst "[]"]
  show ?thesis by (simp add: place2var_of_def)
qed

lemma origins_loop_eq:
  "origins_loop d os dests (pp, ev) = Inr (pp', ev') \<Longrightarrow>
     (\<forall>x\<in>set os. \<exists>i. map_of d (place_name x) = Some i)
     \<and> pp' = pp @ map (\<lambda>orig. (the (map_of d (place_name orig)), 1,
                    (if list_ex (\<lambda>dest. place_name dest = place_name orig) dests then 1 else 0),
                    [])) os
     \<and> set ev' = set ev \<union> (\<lambda>orig. the (map_of d (place_name orig))) ` set os"
proof (induction os arbitrary: pp ev)
  case Nil
  then show ?case by simp
next
  case (Cons x os)
  from Cons.prems obtain i where i: "map_of d (place_name x) = Some i"
    and r: "origins_loop d os dests
              (pp @ [(i, 1, (if list_ex (\<lambda>dest. place_name dest = place_name x) dests
                              then 1 else 0), [])], py_add i ev) = Inr (pp', ev')"
    by (auto simp: dict_get_def Let_def split: option.splits sum.splits)
  from Cons.IH [OF r] i show ?case by auto
qed

lemma destinations_loop_eq:
  "destinations_loop d ds os ev pp = Inr pp' \<Longrightarrow>
     (\<forall>x\<in>set ds. \<exists>i. map_of d (place_name x) = Some i)
     \<and> pp' = pp @ map (\<lambda>dest. (the (map_of d (place_name dest)),
                    (if list_ex (\<lambda>orig. place_name orig = place_name dest) os then 1 else 0),
                    1, []))
                (filter (\<lambda>dest. the (map_of d (place_name dest)) \<notin> set ev) ds)"
proof (induction ds arbitrary: pp)
  case Nil
  then show ?case by simp
next
  case (Cons x ds)
  from Cons.prems obtain i where i: "map_of d (place_name x) = Some i"
    by (auto simp: dict_get_def split: option.splits sum.splits)
  show ?case
  proof (cases "i \<in> set ev")
    case True
    with Cons.prems i have "destinations_loop d ds os ev pp = Inr pp'"
      by (simp add: dict_get_def)
    from Cons.IH [OF this] i True show ?thesis by simp
  next
    case False
    with Cons.prems i have "destinations_loop d ds os ev
        (pp @ [(i, (if list_ex (\<lambda>orig. place_name orig = place_name x) os then 1 else 0), 1, [])])
        = Inr pp'"
      by (simp add: dict_get_def Let_def)
    from Cons.IH [OF this] i False show ?thesis by simp
  qed
qed

lemma operators_loop_eq:
  "operators_loop d ts ops = Inr ops' \<Longrightarrow>
     \<exists>new. ops' = ops @ new \<and> list_all2 (\<lambda>t o'. operator_of d t = Inr o') ts new"
proof (induction ts arbitrary: ops)
  case Nil
  then show ?case by simp
next
  case (Cons t ts)
  from Cons.prems obtain o' where o': "operator_of d t = Inr o'"
    and r: "operators_loop d ts (ops @ [o']) = Inr ops'"
    by (auto split: sum.splits)
  from Cons.IH [OF r] obtain new where "ops' = (ops @ [o']) @ new"
    "list_all2 (\<lambda>t o'. operator_of d t = Inr o') ts new" by blast
  then have "ops' = ops @ (o' # new)"
    "list_all2 (\<lambda>t o'. operator_of d t = Inr o') (t # ts) (o' # new)"
    using o' by simp_all
  then show ?case by blast
qed

lemma sas_translate_place2var:
  "st_place2var (places_loop ps goals
      \<lparr> st_ranges = [], st_axiom_layers = [], st_value_names = [],
        st_init_values = [], st_petri_goals = [], st_place2var = [] \<rparr>) = place2var_of ps"
  by (simp add: places_loop_place2var place2var_of_def)

lemma sas_translate_Inr:
  assumes "sas_translate petri goal = Inr task"
  shows "list_all2 (\<lambda>t o'. operator_of (place2var_of (places petri)) t = Inr o')
           (transitions petri) (operators task)"
    and "goal_pairs task =
           concat (map (\<lambda>ip. concat (map (goal_pairs_of (place_name (snd ip)) (fst ip))
                                        (pddl_goals_of goal)))
                     (List.enumerate 0 (places petri)))"
proof -
  from assms obtain ops where
    ops: "operators_loop (place2var_of (places petri)) (transitions petri) [] = Inr ops"
    and task: "operators task = ops"
      "goal_pairs task = st_petri_goals (places_loop (places petri) (pddl_goals_of goal)
      \<lparr> st_ranges = [], st_axiom_layers = [], st_value_names = [],
        st_init_values = [], st_petri_goals = [], st_place2var = [] \<rparr>)"
    by (auto simp: sas_translate_def Let_def sas_translate_place2var split: sum.splits)
  from operators_loop_eq [OF ops] task(1)
  show "list_all2 (\<lambda>t o'. operator_of (place2var_of (places petri)) t = Inr o')
           (transitions petri) (operators task)" by simp
  show "goal_pairs task =
           concat (map (\<lambda>ip. concat (map (goal_pairs_of (place_name (snd ip)) (fst ip))
                                        (pddl_goals_of goal)))
                     (List.enumerate 0 (places petri)))"
    unfolding task(2) by (simp add: places_loop_petri_goals)
qed

lemma operator_of_Inr:
  assumes "operator_of d t = Inr o'"
  shows "\<forall>x\<in>set (origins t) \<union> set (destinations t). \<exists>i. map_of d (place_name x) = Some i"
    and "pre_post o' =
           map (\<lambda>orig. (the (map_of d (place_name orig)), 1,
                  (if list_ex (\<lambda>dest. place_name dest = place_name orig) (destinations t)
                   then 1 else 0), [])) (origins t)
           @ map (\<lambda>dest. (the (map_of d (place_name dest)), 0, 1, []))
               (filter (\<lambda>dest. the (map_of d (place_name dest))
                          \<notin> (\<lambda>orig. the (map_of d (place_name orig))) ` set (origins t))
                       (destinations t))"
    and "prevail o' = []" and "sas_cost o' = transition_cost t"
    and "sas_name o' = ''('' @ transition_name t @ '')''"
proof -
  let ?var = "\<lambda>p. the (map_of d (place_name p))"
  from assms obtain pp ev pp' where
    ol: "origins_loop d (origins t) (destinations t) ([], []) = Inr (pp, ev)"
    and dl: "destinations_loop d (destinations t) (origins t) ev pp = Inr pp'"
    and o': "o' = SASOperator (''('' @ transition_name t @ '')'') [] pp' (transition_cost t)"
    by (auto simp: operator_of_def split: sum.splits prod.splits)
  note a = origins_loop_eq [OF ol]
  note b = destinations_loop_eq [OF dl]
  from a b show "\<forall>x\<in>set (origins t) \<union> set (destinations t). \<exists>i. map_of d (place_name x) = Some i"
    by blast
  have ev: "set ev = ?var ` set (origins t)" using a by simp
  have zero: "map (\<lambda>dest. (?var dest,
                    (if list_ex (\<lambda>orig. place_name orig = place_name dest) (origins t)
                     then 1 else 0), 1, []))
                (filter (\<lambda>dest. ?var dest \<notin> set ev) (destinations t))
            = map (\<lambda>dest. (?var dest, 0::int, 1::int, []::(nat \<times> int) list))
                (filter (\<lambda>dest. ?var dest \<notin> set ev) (destinations t))"
  proof (rule map_cong [OF refl])
    fix dest assume "dest \<in> set (filter (\<lambda>dest. ?var dest \<notin> set ev) (destinations t))"
    then have "?var dest \<notin> ?var ` set (origins t)" using ev by simp
    then have "\<not> list_ex (\<lambda>orig. place_name orig = place_name dest) (origins t)"
      by (auto simp: list_ex_iff image_iff)
    then show "(?var dest,
                    (if list_ex (\<lambda>orig. place_name orig = place_name dest) (origins t)
                     then 1 else 0), 1, [])
             = (?var dest, 0::int, 1::int, []::(nat \<times> int) list)" by simp
  qed
  have "pp' = map (\<lambda>orig. (?var orig, 1,
                  (if list_ex (\<lambda>dest. place_name dest = place_name orig) (destinations t)
                   then 1 else 0), [])) (origins t)
           @ map (\<lambda>dest. (?var dest, 0, 1, []))
               (filter (\<lambda>dest. ?var dest \<notin> set ev) (destinations t))"
    using a b zero by simp
  then show "pre_post o' =
           map (\<lambda>orig. (?var orig, 1,
                  (if list_ex (\<lambda>dest. place_name dest = place_name orig) (destinations t)
                   then 1 else 0), [])) (origins t)
           @ map (\<lambda>dest. (?var dest, 0, 1, []))
               (filter (\<lambda>dest. ?var dest \<notin> ?var ` set (origins t)) (destinations t))"
    unfolding ev by (simp add: o' SASOperator_def)
  show "prevail o' = []" "sas_cost o' = transition_cost t"
    "sas_name o' = ''('' @ transition_name t @ '')''"
    by (simp_all add: o' SASOperator_def)
qed

text \<open>
  Claim C8. In the task built by \<open>sas_translate\<close>, the operator of every transition has
  as its pre/post list one entry (variable, 1, post-value, no condition) for every origin,
  where the post-value is 1 if a destination has the origin's place name and 0 otherwise,
  followed by one entry (variable, 0, 1, no condition) for every destination whose variable
  is not the variable of an origin; the prevail list and every condition list are empty and
  the cost is the cost of the transition. The variable of a place is the index of a place
  of the net with that name.
\<close>

theorem C8_operator_encoding:
  assumes st: "sas_translate petri goal = Inr task"
    and k: "k < length (transitions petri)"
  shows "length (operators task) = length (transitions petri)
       \<and> pre_post (operators task ! k) =
           map (\<lambda>orig. (var_of petri orig, 1,
                  (if list_ex (\<lambda>dest. place_name dest = place_name orig)
                        (destinations (transitions petri ! k))
                   then 1 else 0), [])) (origins (transitions petri ! k))
           @ map (\<lambda>dest. (var_of petri dest, 0, 1, []))
               (filter (\<lambda>dest. var_of petri dest
                          \<notin> var_of petri ` set (origins (transitions petri ! k)))
                       (destinations (transitions petri ! k)))
       \<and> prevail (operators task ! k) = []
       \<and> list_all (\<lambda>e. snd (snd (snd e)) = []) (pre_post (operators task ! k))
       \<and> sas_cost (operators task ! k) = transition_cost (transitions petri ! k)
       \<and> list_all (\<lambda>p. var_of petri p < length (places petri)
                      \<and> place_name (places petri ! var_of petri p) = place_name p)
           (origins (transitions petri ! k) @ destinations (transitions petri ! k))"
proof -
  let ?d = "place2var_of (places petri)"
  let ?t = "transitions petri ! k"
  let ?o = "operators task ! k"
  note all2 = sas_translate_Inr(1) [OF st]
  have len: "length (operators task) = length (transitions petri)"
    using all2 by (simp add: list_all2_lengthD)
  have o: "operator_of ?d ?t = Inr ?o"
    using all2 k by (simp add: list_all2_conv_all_nth)
  note op = operator_of_Inr [OF o]
  have pp: "pre_post ?o =
           map (\<lambda>orig. (var_of petri orig, 1,
                  (if list_ex (\<lambda>dest. place_name dest = place_name orig) (destinations ?t)
                   then 1 else 0), [])) (origins ?t)
           @ map (\<lambda>dest. (var_of petri dest, 0, 1, []))
               (filter (\<lambda>dest. var_of petri dest \<notin> var_of petri ` set (origins ?t))
                       (destinations ?t))"
    using op(2) unfolding var_of_def .
  have cond: "list_all (\<lambda>e. snd (snd (snd e)) = []) (pre_post ?o)"
    unfolding pp by (auto simp: list_all_iff)
  have vars: "list_all (\<lambda>p. var_of petri p < length (places petri)
                      \<and> place_name (places petri ! var_of petri p) = place_name p)
           (origins ?t @ destinations ?t)"
    unfolding list_all_iff
  proof
    fix p assume "p \<in> set (origins ?t @ destinations ?t)"
    with op(1) obtain i where i: "map_of ?d (place_name p) = Some i" by auto
    from place2var_of_Some [OF i] i
    show "var_of petri p < length (places petri)
          \<and> place_name (places petri ! var_of petri p) = place_name p"
      by (simp add: var_of_def)
  qed
  show ?thesis using len pp op(3) cond op(4) vars by blast
qed

lemma hick_sas_translate: "sas_translate hick_net (Lit atom_d) = Inr hick_task"
  by code_simp

theorem C8_witness:
  "sas_translate hick_net (Lit atom_d) = Inr hick_task
   \<and> (1::nat) < length (transitions hick_net)
   \<and> pre_post (operators hick_task ! 1) =
        [(0, 1, 0, []), (3, 1, 1, []), (5, 1, 0, []), (2, 0, 1, []), (4, 0, 1, [])]
   \<and> pre_post (operators hick_task ! 1) =
           map (\<lambda>orig. (var_of hick_net orig, 1,
                  (if list_ex (\<lambda>dest. place_name dest = place_name orig)
                        (destinations (transitions hick_net ! 1))
                   then 1 else 0), [])) (origins (transitions hick_net ! 1))
           @ map (\<lambda>dest. (var_of hick_net dest, 0, 1, []))
               (filter (\<lambda>dest. var_of hick_net dest
                          \<notin> var_of hick_net ` set (origins (transitions hick_net ! 1)))
                       (destinations (transitions hick_net ! 1)))
   \<and> prevail (operators hick_task ! 1) = []
   \<and> sas_cost (operators hick_task ! 1) = transition_cost (transitions hick_net ! 1)"
proof -
  have k: "(1::nat) < length (transitions hick_net)" by code_simp
  have pp: "pre_post (operators hick_task ! 1) =
        [(0, 1, 0, []), (3, 1, 1, []), (5, 1, 0, []), (2, 0, 1, []), (4, 0, 1, [])]"
    by code_simp
  show ?thesis
    using C8_operator_encoding [OF hick_sas_translate k] hick_sas_translate k pp by blast
qed

lemma set_goal_pairs_of:
  "set (goal_pairs_of nm var c) =
     {(i, v). i = var \<and> (\<exists>g. c = Lit g \<and> (v = 1 \<and> str_literal g = nm
                                          \<or> v = 0 \<and> str_literal (negate g) = nm))}"
  by (cases c) auto

lemma sas_translate_returns_iff:
  "isl (sas_translate petri goal) =
     isl (operators_loop (place2var_of (places petri)) (transitions petri) [])"
  by (cases "operators_loop (place2var_of (places petri)) (transitions petri) []")
     (simp_all add: sas_translate_def Let_def sas_translate_place2var)

text \<open>
  Claim C9, amended. \<open>sas_translate\<close> does not validate the goal: whether it completes
  does not depend on the goal, and the goal list of the task it builds holds the pair
  (variable, 1) for every place whose name is the string form of a top-level goal literal
  and the pair (variable, 0) for every place whose name is the string form of the negation
  of one, and nothing else. A goal literal without a place is left out of the encoding and
  no error is raised.
\<close>

theorem C9_unmatched_goal_is_omitted:
  assumes "sas_translate petri goal' = Inr task'"
  shows "\<exists>task. sas_translate petri goal = Inr task
           \<and> set (goal_pairs task) =
               {(i, v). i < length (places petri)
                  \<and> (\<exists>g. Lit g \<in> set (pddl_goals_of goal)
                        \<and> (v = 1 \<and> str_literal g = place_name (places petri ! i)
                           \<or> v = 0 \<and> str_literal (negate g) = place_name (places petri ! i)))}"
proof -
  from assms have "\<not> isl (sas_translate petri goal')" by simp
  then have "\<not> isl (sas_translate petri goal)"
    by (simp add: sas_translate_returns_iff)
  then obtain task where task: "sas_translate petri goal = Inr task"
    by (cases "sas_translate petri goal") auto
  have "set (goal_pairs task) =
               {(i, v). i < length (places petri)
                  \<and> (\<exists>g. Lit g \<in> set (pddl_goals_of goal)
                        \<and> (v = 1 \<and> str_literal g = place_name (places petri ! i)
                           \<or> v = 0 \<and> str_literal (negate g) = place_name (places petri ! i)))}"
    unfolding sas_translate_Inr(2) [OF task]
    apply (auto simp: set_goal_pairs_of in_set_enumerate_eq)
     apply (rule_tac x = "(a, places petri ! a)" in bexI; force simp: in_set_enumerate_eq)
    apply (rule_tac x = "(a, places petri ! a)" in bexI; force simp: in_set_enumerate_eq)
    done
  with task show ?thesis by blast
qed

theorem C9_witness:
  "sas_translate hick_net (Lit atom_d) = Inr hick_task
   \<and> (\<exists>task. sas_translate hick_net (Conj [atom_d, negate atom_a, atom_c]) = Inr task
         \<and> set (goal_pairs task) =
               {(i, v). i < length (places hick_net)
                  \<and> (\<exists>g. Lit g \<in> set (pddl_goals_of (Conj [atom_d, negate atom_a, atom_c]))
                        \<and> (v = 1 \<and> str_literal g = place_name (places hick_net ! i)
                           \<or> v = 0 \<and> str_literal (negate g) = place_name (places hick_net ! i)))})
   \<and> sas_translate hick_net (Conj [atom_d, negate atom_a, atom_c])
       = Inr (hick_task \<lparr> goal_pairs := [(0, 0), (2, 1)] \<rparr>)"
proof -
  have g: "sas_translate hick_net (Conj [atom_d, negate atom_a, atom_c])
       = Inr (hick_task \<lparr> goal_pairs := [(0, 0), (2, 1)] \<rparr>)"
    by code_simp
  show ?thesis
    using C9_unmatched_goal_is_omitted [OF hick_sas_translate,
        of "Conj [atom_d, negate atom_a, atom_c]"] hick_sas_translate g
    by blast
qed

theorem C9_counterexample:
  "list_all (\<lambda>p. place_name p \<noteq> str_literal atom_c
                \<and> place_name p \<noteq> str_literal (negate atom_c)) (places hick_net)
   \<and> sas_translate hick_net (Lit atom_c) = Inr (hick_task \<lparr> goal_pairs := [] \<rparr>)"
  by code_simp

section \<open>Complement consistency of the net\<close>

subsection \<open>Literals and their complement atoms\<close>

lemma positive_negate [simp]: "positive (negate l) = positive l"
  by (simp add: positive_def negate_def)

lemma positive_of_positive: "\<not> negated l \<Longrightarrow> positive l = l"
  by (cases l) (simp add: positive_def)

lemma negated_literal_eq: "negated l \<Longrightarrow> l = negate (positive l)"
  by (cases l) (simp add: positive_def negate_def)

lemma not_atom_negated: "negated l \<Longrightarrow> not_atom l = complement_atom (positive l)"
  by (cases l) (simp add: complement_atom_def not_atom_def negate_def positive_def)

lemma negate_not_atom_positive: "\<not> negated l \<Longrightarrow> negate (not_atom l) = complement_atom l"
  by (cases l) (simp add: complement_atom_def not_atom_def negate_def)

lemma complement_atom_inject [simp]: "complement_atom x = complement_atom y \<longleftrightarrow> x = y"
  by (cases x; cases y) (auto simp: complement_atom_def not_atom_def negate_def)

lemma negated_complement_atom [simp]: "negated (complement_atom x) = negated x"
  by (cases x) (simp add: complement_atom_def not_atom_def negate_def)

lemma negate_inject [simp]: "negate x = negate y \<longleftrightarrow> x = y"
  by (cases x; cases y) (auto simp: negate_def)

lemma negated_positive [simp]: "\<not> negated (positive l)"
  by (simp add: positive_def)

subsection \<open>What the safe operators inherit from a well-formed action\<close>

lemma preconditions_atoms_all_Lit: "list_all is_Lit pre \<Longrightarrow> preconditions_atoms pre = pre"
proof (induction pre)
  case Nil
  then show ?case by (simp add: preconditions_atoms_def)
next
  case (Cons c pre)
  then show ?case by (cases c) (simp_all add: preconditions_atoms_def)
qed

lemma Lit_in_preconditions_atoms:
  "Lit l \<in> set pre \<Longrightarrow> Lit l \<in> set (preconditions_atoms pre)"
  by (induction pre) (auto simp: preconditions_atoms_def)

lemma set_lits_of: "set (lits_of pre) = {l. Lit l \<in> set pre}"
  using Lit_in_lits_of lits_of_in_set by blast

lemma in_powerset_subset: "eprime \<in> set (powerset xs) \<Longrightarrow> set eprime \<subseteq> set xs"
  using subseqs_powset [of xs] by (auto simp: set_powerset)

lemma expand_operator_cases:
  assumes "op1 \<in> set (expand_operator a)"
  obtains (unchanged) "not_negated_effects a = []" "op1 = a"
  | (expanded) i eprime where "set eprime \<subseteq> set (not_negated_effects a)"
      "op1 = safe_operator a (i, eprime)"
proof (cases "not_negated_effects a = []")
  case True
  with assms have "op1 = a" by (simp add: expand_operator_def)
  with True show ?thesis by (rule unchanged)
next
  case False
  with assms obtain ie where ie: "ie \<in> set (List.enumerate 1 (powerset (not_negated_effects a)))"
    and op1: "op1 = safe_operator a ie"
    by (auto simp: expand_operator_def)
  obtain i eprime where [simp]: "ie = (i, eprime)" by (cases ie)
  from ie have "eprime \<in> set (powerset (not_negated_effects a))"
    by (auto simp: in_set_enumerate_eq)
  then have "set eprime \<subseteq> set (not_negated_effects a)" by (rule in_powerset_subset)
  then show ?thesis using op1 by (auto intro: expanded)
qed

lemma not_negated_effects_subset: "set (not_negated_effects a) \<subseteq> set (effects_of a)"
  by (auto simp: not_negated_effects_def)

lemma negated_effects_iff:
  "l \<in> set (negated_effects a) \<longleftrightarrow>
     l \<in> set (effects_of a)
     \<and> (Lit (negate l) \<in> set (preconditions_atoms (precondition a))
        \<or> Lit l \<in> set (preconditions_atoms (precondition a)))"
  by (auto simp: negated_effects_def not_negated_effects_def not_negated_effect_iff)

lemma precondition_safe_operator:
  "precondition (safe_operator a (i, eprime)) = safe_precondition a eprime"
  by (simp add: safe_operator_def)

text \<open>The properties of a safe operator that the later stages rely on.\<close>

lemma safe_operator_effects_subset:
  assumes "op1 \<in> set (expand_operator a)"
  shows "set (effects_of op1) \<subseteq> set (effects_of a)"
  using assms
proof (cases rule: expand_operator_cases)
  case unchanged
  then show ?thesis by simp
next
  case (expanded i eprime)
  then show ?thesis
    using not_negated_effects_subset [of a]
    by (auto simp: set_effects_of_safe_operator negated_effects_iff)
qed

lemma safe_operator_precondition_origin:
  assumes "op1 \<in> set (expand_operator a)" and "Lit l \<in> set (precondition op1)"
  shows "Lit l \<in> set (preconditions_atoms (precondition a))
         \<or> l \<in> set (effects_of a) \<or> negate l \<in> set (effects_of a)"
  using assms(1)
proof (cases rule: expand_operator_cases)
  case unchanged
  then show ?thesis using assms(2) by (simp add: Lit_in_preconditions_atoms)
next
  case (expanded i eprime)
  with assms(2) have "Lit l \<in> set (safe_precondition a eprime)"
    by (simp add: precondition_safe_operator)
  then show ?thesis
    using not_negated_effects_subset [of a]
    by (auto simp: set_safe_precondition)
qed

lemma safe_operator_is_safe:
  assumes "op1 \<in> set (expand_operator a)" and "list_all is_Lit (precondition op1)"
    and "l \<in> set (effects_of op1)"
  shows "Lit l \<in> set (precondition op1) \<or> Lit (negate l) \<in> set (precondition op1)"
  using assms(1)
proof (cases rule: expand_operator_cases)
  case unchanged
  have "l \<notin> set (not_negated_effects a)" using unchanged(1) by simp
  then have "\<not> not_negated_effect l (precondition a)"
    using assms(3) unchanged(2) by (simp add: not_negated_effects_def)
  then show ?thesis
    using assms(2) unchanged(2)
    by (auto simp: not_negated_effect_iff preconditions_atoms_all_Lit)
next
  case (expanded i eprime)
  have pre: "set (precondition op1) =
     set (preconditions_atoms (precondition a))
     \<union> {Lit (negate e) | e. e \<in> set (not_negated_effects a) \<and> e \<in> set eprime}
     \<union> {Lit e | e. e \<in> set (not_negated_effects a) \<and> e \<notin> set eprime}"
    unfolding expanded(2) precondition_safe_operator by (rule set_safe_precondition)
  from assms(3) have "l \<in> set (negated_effects a) \<or> l \<in> set eprime"
    unfolding expanded(2) by (simp add: set_effects_of_safe_operator)
  then show ?thesis
  proof
    assume "l \<in> set (negated_effects a)"
    then show ?thesis unfolding pre by (auto simp: negated_effects_iff)
  next
    assume "l \<in> set eprime"
    then show ?thesis unfolding pre using expanded(1) by auto
  qed
qed

lemma well_formed_operator_ok:
  assumes wf: "well_formed_task atoms actions"
    and op1: "op1 \<in> set (get_safe_operators actions)"
    and lits: "list_all is_Lit (precondition op1)"
  shows "operator_ok atoms op1"
proof -
  from op1 obtain a where a: "a \<in> set actions" and ex: "op1 \<in> set (expand_operator a)"
    by (auto simp: get_safe_operators_def)
  from wf a have pre_a: "\<And>l. Lit l \<in> set (preconditions_atoms (precondition a))
                          \<Longrightarrow> positive l \<in> set atoms"
    and eff_a: "\<And>l. l \<in> set (effects_of a) \<Longrightarrow> positive l \<in> set atoms"
    and pair_a: "\<And>l. l \<in> set (effects_of a) \<Longrightarrow> negate l \<notin> set (effects_of a)"
    by (auto simp: well_formed_task_def list_all_iff set_lits_of)
  note sub = safe_operator_effects_subset [OF ex]
  have 1: "list_all (\<lambda>l. positive l \<in> set atoms) (lits_of (precondition op1))"
    unfolding list_all_iff
  proof
    fix l assume "l \<in> set (lits_of (precondition op1))"
    then have "Lit l \<in> set (precondition op1)" by (rule lits_of_in_set)
    from safe_operator_precondition_origin [OF ex this]
    show "positive l \<in> set atoms"
      using pre_a [of l] eff_a [of l] eff_a [of "negate l"] by auto
  qed
  have 2: "list_all (\<lambda>l. positive l \<in> set atoms \<and> negate l \<notin> set (effects_of op1)
                    \<and> (l \<in> set (lits_of (precondition op1))
                       \<or> negate l \<in> set (lits_of (precondition op1))))
         (effects_of op1)"
    unfolding list_all_iff
  proof
    fix l assume l: "l \<in> set (effects_of op1)"
    then have la: "l \<in> set (effects_of a)" using sub by blast
    have "negate l \<notin> set (effects_of op1)" using pair_a [OF la] sub by blast
    moreover have "l \<in> set (lits_of (precondition op1))
                       \<or> negate l \<in> set (lits_of (precondition op1))"
      using safe_operator_is_safe [OF ex lits l] by (auto simp: set_lits_of)
    ultimately show "positive l \<in> set atoms \<and> negate l \<notin> set (effects_of op1)
                    \<and> (l \<in> set (lits_of (precondition op1))
                       \<or> negate l \<in> set (lits_of (precondition op1)))"
      using eff_a [OF la] by blast
  qed
  show ?thesis unfolding operator_ok_def using lits 1 2 by blast
qed

subsection \<open>The result of removing the negative preconditions\<close>

lemma remove_negative_preconditions_op_rewritten:
  "remove_negative_preconditions_op op al =
     (if list_all is_Lit (precondition op)
      then Inr (rewritten_operator op,
                add_literals (effects_of op) (add_literals (lits_of (precondition op)) al))
      else Inl AttributeError)"
  by (simp add: remove_negative_preconditions_op_eq rewritten_operator_def)

lemma set_dict_set: "set (dict_set d k v) \<subseteq> set d \<union> {(k, v)}"
  by (induction d k v rule: dict_set.induct) auto

lemma in_add_literals:
  "(k, v) \<in> set (add_literals ls d) \<Longrightarrow>
     (k, v) \<in> set d \<or> (k \<in> set ls \<and> negated k \<and> v = not_atom k)"
proof (induction ls arbitrary: d)
  case Nil
  then show ?case by simp
next
  case (Cons l ls)
  from Cons.IH [OF Cons.prems [simplified]]
  show ?case using set_dict_set [of d l "not_atom l"] by (auto split: if_splits)
qed

lemma remove_negative_preconditions_from_rewritten:
  assumes "remove_negative_preconditions_from S al0 = Inr (R, al)"
  shows "list_all (\<lambda>op. list_all is_Lit (precondition op)) S \<and> R = map rewritten_operator S
       \<and> (\<forall>k v. (k, v) \<in> set al \<longrightarrow>
             (k, v) \<in> set al0
             \<or> (negated k \<and> v = not_atom k
                \<and> (\<exists>op\<in>set S. k \<in> set (lits_of (precondition op)) \<or> k \<in> set (effects_of op))))"
  using assms
proof (induction S arbitrary: al0 R al)
  case Nil
  then show ?case by simp
next
  case (Cons op S)
  let ?al1 = "add_literals (effects_of op) (add_literals (lits_of (precondition op)) al0)"
  from Cons.prems have lits: "list_all is_Lit (precondition op)"
    by (auto simp: remove_negative_preconditions_op_rewritten split: if_splits)
  with Cons.prems obtain R' where
    r: "remove_negative_preconditions_from S ?al1 = Inr (R', al)"
    and R: "R = rewritten_operator op # R'"
    by (auto simp: remove_negative_preconditions_op_rewritten split: sum.splits)
  note ih = Cons.IH [OF r]
  have al: "\<forall>k v. (k, v) \<in> set al \<longrightarrow>
             (k, v) \<in> set al0
             \<or> (negated k \<and> v = not_atom k
                \<and> (\<exists>op'\<in>set (op # S). k \<in> set (lits_of (precondition op'))
                                        \<or> k \<in> set (effects_of op')))"
  proof (intro allI impI)
    fix k v assume "(k, v) \<in> set al"
    with ih consider "(k, v) \<in> set ?al1"
      | "negated k \<and> v = not_atom k
           \<and> (\<exists>op'\<in>set S. k \<in> set (lits_of (precondition op')) \<or> k \<in> set (effects_of op'))"
      by blast
    then show "(k, v) \<in> set al0
             \<or> (negated k \<and> v = not_atom k
                \<and> (\<exists>op'\<in>set (op # S). k \<in> set (lits_of (precondition op'))
                                        \<or> k \<in> set (effects_of op')))"
    proof cases
      case 1
      from in_add_literals [OF 1] show ?thesis
      proof
        assume "(k, v) \<in> set (add_literals (lits_of (precondition op)) al0)"
        from in_add_literals [OF this] show ?thesis by auto
      next
        assume "k \<in> set (effects_of op) \<and> negated k \<and> v = not_atom k"
        then show ?thesis by auto
      qed
    next
      case 2
      then show ?thesis by auto
    qed
  qed
  show ?case using lits ih R al by simp
qed

subsection \<open>The atoms of a rewritten operator\<close>

lemma well_formed_atoms_ok: "well_formed_task atoms actions \<Longrightarrow> atoms_ok atoms"
proof -
  assume wf: "well_formed_task atoms actions"
  then have "distinct (map str_literal (remdups (atoms @ map complement_atom atoms)))"
    by (simp add: well_formed_task_def)
  then have "inj_on str_literal (set (remdups (atoms @ map complement_atom atoms)))"
    by (simp only: distinct_map)
  then have "inj_on str_literal (set atoms \<union> complement_atom ` set atoms)" by simp
  with wf show ?thesis by (simp add: atoms_ok_def well_formed_task_def)
qed

lemma lits_of_map_rewrite_cond:
  "list_all is_Lit pre \<Longrightarrow> lits_of (map rewrite_cond pre) = map origin_atom (lits_of pre)"
proof (induction pre)
  case Nil
  then show ?case by simp
next
  case (Cons c pre)
  then show ?case by (cases c) (simp_all add: origin_atom_def)
qed

lemma list_all_is_Lit_rewrite: "list_all is_Lit pre \<Longrightarrow> list_all is_Lit (map rewrite_cond pre)"
  by (induction pre) (auto simp: positive_rewrite_cond)

lemma rewritten_precondition:
  "list_all is_Lit (precondition op) \<Longrightarrow>
     list_all is_Lit (precondition (rewritten_operator op))
     \<and> lits_of (precondition (rewritten_operator op)) = map origin_atom (lits_of (precondition op))"
  by (simp add: rewritten_operator_def lits_of_map_rewrite_cond list_all_is_Lit_rewrite)

lemma PropositionalAction_effect_atoms:
  "map snd (add_effects (PropositionalAction nm pre (map (\<lambda>eff. ([], eff)) es) c))
     = filter (\<lambda>e. \<not> negated e) es"
  "map snd (del_effects (PropositionalAction nm pre (map (\<lambda>eff. ([], eff)) es) c))
     = map negate (filter negated es)"
  by (induction es) (simp_all add: PropositionalAction_def)

lemma rewritten_add_effects:
  "snd ` set (add_effects (rewritten_operator op)) = origin_atom ` set (effects_of op)"
proof -
  have "snd ` set (add_effects (rewritten_operator op)) =
        set (map snd (add_effects (rewritten_operator op)))" by simp
  also have "\<dots> = {x \<in> set (effects_of op) \<union> not_atom ` set (effects_of op). \<not> negated x}"
    unfolding rewritten_operator_def PropositionalAction_effect_atoms by auto
  also have "\<dots> = origin_atom ` set (effects_of op)"
    by (auto simp: origin_atom_def not_atom_def image_iff)
  finally show ?thesis .
qed

lemma rewritten_del_effects:
  "snd ` set (del_effects (rewritten_operator op)) = opposite_atom ` set (effects_of op)"
proof -
  have "snd ` set (del_effects (rewritten_operator op)) =
        set (map snd (del_effects (rewritten_operator op)))" by simp
  also have "\<dots> = negate ` {x \<in> set (effects_of op) \<union> not_atom ` set (effects_of op). negated x}"
    unfolding rewritten_operator_def PropositionalAction_effect_atoms by auto
  also have "\<dots> = opposite_atom ` set (effects_of op)"
    by (auto simp: opposite_atom_def not_atom_def image_iff)
  finally show ?thesis .
qed

lemma rewritten_name_cost [simp]:
  "name (rewritten_operator op) = name op" "cost (rewritten_operator op) = cost op"
  by (simp_all add: rewritten_operator_def)

text \<open>When a literal over an atom of the list stands for an atom or for its complement.\<close>

lemma atoms_okD:
  assumes "atoms_ok atoms" and "a \<in> set atoms"
  shows "\<not> negated a" and "complement_atom a \<notin> set atoms"
  using assms by (auto simp: atoms_ok_def list_all_iff)

lemma origin_atom_eq:
  assumes ok: "atoms_ok atoms" and p: "p \<in> set atoms" and l: "positive l \<in> set atoms"
  shows "origin_atom l = p \<longleftrightarrow> l = p"
    and "origin_atom l = complement_atom p \<longleftrightarrow> l = negate p"
proof -
  note np = atoms_okD [OF ok p]
  note nl = atoms_okD [OF ok l]
  show "origin_atom l = p \<longleftrightarrow> l = p"
  proof (cases "negated l")
    case True
    then have "origin_atom l = complement_atom (positive l)"
      by (simp add: origin_atom_def not_atom_negated)
    then show ?thesis using nl(2) p np(1) True by auto
  next
    case False
    then show ?thesis by (simp add: origin_atom_def)
  qed
  show "origin_atom l = complement_atom p \<longleftrightarrow> l = negate p"
  proof (cases "negated l")
    case True
    then have "origin_atom l = complement_atom (positive l)"
      by (simp add: origin_atom_def not_atom_negated)
    then show ?thesis using negated_literal_eq [OF True] by auto
  next
    case False
    then have "origin_atom l = l" "positive l = l"
      by (simp_all add: origin_atom_def positive_of_positive)
    moreover have "l \<noteq> negate p" using False np(1) by auto
    ultimately show ?thesis using l np(2) by auto
  qed
qed

lemma opposite_atom_eq:
  assumes ok: "atoms_ok atoms" and p: "p \<in> set atoms" and l: "positive l \<in> set atoms"
  shows "opposite_atom l = p \<longleftrightarrow> l = negate p"
    and "opposite_atom l = complement_atom p \<longleftrightarrow> l = p"
proof -
  note np = atoms_okD [OF ok p]
  note nl = atoms_okD [OF ok l]
  have neg: "negated l \<Longrightarrow> opposite_atom l = positive l"
    by (cases l) (simp add: opposite_atom_def negate_def positive_def)
  have pos: "\<not> negated l \<Longrightarrow> opposite_atom l = complement_atom l"
    by (simp add: opposite_atom_def negate_not_atom_positive)
  show "opposite_atom l = p \<longleftrightarrow> l = negate p"
  proof (cases "negated l")
    case True
    then show ?thesis using neg negated_literal_eq [OF True] np(1)
      by (auto simp: positive_of_positive)
  next
    case False
    then have "positive l = l" by (simp add: positive_of_positive)
    moreover have "l \<noteq> negate p" using False np(1) by auto
    ultimately show ?thesis using pos [OF False] l nl(2) p by auto
  qed
  show "opposite_atom l = complement_atom p \<longleftrightarrow> l = p"
  proof (cases "negated l")
    case True
    then show ?thesis using neg l np by auto
  next
    case False
    then show ?thesis using pos by simp
  qed
qed

lemma origin_atom_in_universe:
  assumes "atoms_ok atoms" and "positive l \<in> set atoms"
  shows "origin_atom l \<in> set atoms \<union> complement_atom ` set atoms"
proof (cases "negated l")
  case True
  then show ?thesis using assms(2) by (simp add: origin_atom_def not_atom_negated)
next
  case False
  then show ?thesis using assms(2) by (simp add: origin_atom_def positive_of_positive)
qed

lemma opposite_atom_in_universe:
  assumes "atoms_ok atoms" and "positive l \<in> set atoms"
  shows "opposite_atom l \<in> set atoms \<union> complement_atom ` set atoms"
proof (cases "negated l")
  case True
  then have "opposite_atom l = positive l"
    by (cases l) (simp add: opposite_atom_def negate_def positive_def)
  then show ?thesis using assms(2) by simp
next
  case False
  then have "opposite_atom l = complement_atom l" "positive l = l"
    by (simp_all add: opposite_atom_def negate_not_atom_positive positive_of_positive)
  then show ?thesis using assms(2) by auto
qed

subsection \<open>The initial marking\<close>

lemma find_append_cases:
  "find P (xs @ ys) = (case find P xs of None \<Rightarrow> find P ys | Some x \<Rightarrow> Some x)"
  by (induction xs) auto

lemma find_map_same:
  assumes "x \<in> set xs"
    and "\<forall>a\<in>set xs. P (h a) \<longrightarrow> h a = h x"
    and "P (h x)"
  shows "find P (map h xs) = Some (h x)"
  using assms
proof (induction xs)
  case Nil
  then show ?case by simp
next
  case (Cons a xs)
  show ?case
  proof (cases "P (h a)")
    case True
    then have "h a = h x" using Cons.prems(2) by simp
    then show ?thesis using True by simp
  next
    case False
    then have "a \<noteq> x" using Cons.prems(3) by auto
    then have "x \<in> set xs" using Cons.prems(1) by simp
    from Cons.IH [OF this] Cons.prems(2,3) False show ?thesis by simp
  qed
qed

lemma initial_marking_atom:
  assumes ok: "atoms_ok atoms" and p: "p \<in> set atoms"
    and places: "places net = map (atom_place clean) atoms @ map (added_place clean) al"
  shows "initial_marking net (str_literal p) = (if p \<in> set clean then 1 else 0)"
proof -
  have inj: "inj_on str_literal (set atoms)"
    using ok by (auto simp: atoms_ok_def intro: inj_on_subset)
  have same: "\<forall>a\<in>set atoms. place_name (atom_place clean a) = str_literal p
                  \<longrightarrow> atom_place clean a = atom_place clean p"
  proof (intro ballI impI)
    fix a assume a: "a \<in> set atoms"
      and "place_name (atom_place clean a) = str_literal p"
    then have "str_literal a = str_literal p" by (simp add: atom_place_def)
    with inj a p have "a = p" by (blast dest: inj_onD)
    then show "atom_place clean a = atom_place clean p" by simp
  qed
  have "find (\<lambda>place. place_name place = str_literal p) (map (atom_place clean) atoms)
          = Some (atom_place clean p)"
    by (rule find_map_same [OF p same]) (simp add: atom_place_def)
  then have "find (\<lambda>place. place_name place = str_literal p) (places net)
          = Some (atom_place clean p)"
    unfolding places find_append_cases by simp
  then show ?thesis
    unfolding initial_marking_def by (simp add: atom_place_def)
qed

lemma initial_marking_complement:
  assumes ok: "atoms_ok atoms" and p: "p \<in> set atoms"
    and kv: "(k, complement_atom p) \<in> set al" and k: "positive k = p"
    and al: "\<forall>(k', v')\<in>set al. negated k' \<and> v' = not_atom k' \<and> positive k' \<in> set atoms"
    and places: "places net = map (atom_place clean) atoms @ map (added_place clean) al"
  shows "initial_marking net (str_literal (complement_atom p)) = (if p \<in> set clean then 0 else 1)"
proof -
  let ?U = "set atoms \<union> complement_atom ` set atoms"
  let ?n = "complement_atom p"
  have inj: "inj_on str_literal ?U" using ok by (simp add: atoms_ok_def)
  have nU: "?n \<in> ?U" using p by simp
  have n_not_atom: "?n \<notin> set atoms" using atoms_okD(2) [OF ok p] .
  have none: "find (\<lambda>place. place_name place = str_literal ?n) (map (atom_place clean) atoms)
                = None"
  proof -
    have "\<And>a. a \<in> set atoms \<Longrightarrow> str_literal a \<noteq> str_literal ?n"
    proof
      fix a assume a: "a \<in> set atoms" and eq: "str_literal a = str_literal ?n"
      have "a \<in> ?U" using a by simp
      with inj eq nU have "a = ?n" by (blast dest: inj_onD)
      with a n_not_atom show False by simp
    qed
    then show ?thesis by (auto simp: find_None_iff atom_place_def)
  qed
  have same: "\<forall>kv'\<in>set al. place_name (added_place clean kv') = str_literal ?n
                  \<longrightarrow> added_place clean kv' = added_place clean (k, ?n)"
  proof (intro ballI impI)
    fix kv' assume kv': "kv' \<in> set al"
      and eq: "place_name (added_place clean kv') = str_literal ?n"
    obtain k' v' where [simp]: "kv' = (k', v')" by (cases kv')
    from al kv' have k': "negated k'" "v' = not_atom k'" "positive k' \<in> set atoms" by auto
    then have v': "v' = complement_atom (positive k')" by (simp add: not_atom_negated)
    then have "v' \<in> ?U" using k'(3) by simp
    moreover from eq have "str_literal v' = str_literal ?n" by (simp add: added_place_def)
    ultimately have "v' = ?n" using inj nU by (blast dest: inj_onD)
    then have "positive k' = p" using v' by simp
    then show "added_place clean kv' = added_place clean (k, ?n)"
      using \<open>v' = ?n\<close> k by (simp add: added_place_def)
  qed
  have "find (\<lambda>place. place_name place = str_literal ?n) (map (added_place clean) al)
          = Some (added_place clean (k, ?n))"
    by (rule find_map_same [OF kv same]) (simp add: added_place_def)
  then have "find (\<lambda>place. place_name place = str_literal ?n) (places net)
          = Some (added_place clean (k, ?n))"
    unfolding places find_append_cases none by simp
  then show ?thesis
    unfolding initial_marking_def by (simp add: added_place_def k)
qed

subsection \<open>The place names of a transition\<close>

lemma kept_membership:
  assumes inj: "inj_on f U" and Os: "Os \<subseteq> U" and A: "A \<subseteq> U" and D: "D \<subseteq> U"
    and K: "K \<subseteq> Os"
    and kept: "\<forall>q\<in>Os. f q \<in> f ` K \<longleftrightarrow> f q \<notin> f ` A \<and> f q \<notin> f ` D"
    and x: "x \<in> U"
  shows "f x \<in> f ` (A \<union> K) \<longleftrightarrow> x \<in> A \<or> (x \<in> Os \<and> x \<notin> A \<and> x \<notin> D)"
proof -
  have KU: "K \<subseteq> U" using K Os by blast
  have a: "f x \<in> f ` A \<longleftrightarrow> x \<in> A" by (rule inj_on_image_mem_iff [OF inj x A])
  have d: "f x \<in> f ` D \<longleftrightarrow> x \<in> D" by (rule inj_on_image_mem_iff [OF inj x D])
  have k: "f x \<in> f ` K \<longleftrightarrow> x \<in> K" by (rule inj_on_image_mem_iff [OF inj x KU])
  have "x \<in> K \<longleftrightarrow> x \<in> Os \<and> x \<notin> A \<and> x \<notin> D"
  proof
    assume xK: "x \<in> K"
    then have xO: "x \<in> Os" using K by blast
    from xK have "f x \<in> f ` K" by blast
    with kept xO have "f x \<notin> f ` A \<and> f x \<notin> f ` D" by blast
    with a d xO show "x \<in> Os \<and> x \<notin> A \<and> x \<notin> D" by blast
  next
    assume h: "x \<in> Os \<and> x \<notin> A \<and> x \<notin> D"
    with a d have "f x \<notin> f ` A \<and> f x \<notin> f ` D" by blast
    with kept h have "f x \<in> f ` K" by blast
    with k show "x \<in> K" by blast
  qed
  moreover have "f x \<in> f ` (A \<union> K) \<longleftrightarrow> f x \<in> f ` A \<or> f x \<in> f ` K" by blast
  ultimately show ?thesis using a k by blast
qed

lemma rewritten_transition_names:
  assumes ok: "atoms_ok atoms" and op_ok: "operator_ok atoms op1"
    and t: "transition_of (places_dict_of clean atoms al) (rewritten_operator op1) = Inr t"
    and x: "x \<in> set atoms \<union> complement_atom ` set atoms"
  shows "str_literal x \<in> set (map place_name (origins t))
           \<longleftrightarrow> x \<in> origin_atom ` set (lits_of (precondition op1))"
    and "str_literal x \<in> set (map place_name (destinations t))
           \<longleftrightarrow> x \<in> origin_atom ` set (effects_of op1)
               \<or> (x \<in> origin_atom ` set (lits_of (precondition op1))
                  \<and> x \<notin> origin_atom ` set (effects_of op1)
                  \<and> x \<notin> opposite_atom ` set (effects_of op1))"
proof -
  let ?U = "set atoms \<union> complement_atom ` set atoms"
  let ?op2 = "rewritten_operator op1"
  let ?O = "origin_atom ` set (lits_of (precondition op1))"
  let ?A = "origin_atom ` set (effects_of op1)"
  let ?D = "opposite_atom ` set (effects_of op1)"
  let ?K = "set (kept_preconditions ?op2)"
  have inj: "inj_on str_literal ?U" using ok by (simp add: atoms_ok_def)
  from op_ok have lits: "list_all is_Lit (precondition op1)"
    and L: "\<And>l. l \<in> set (lits_of (precondition op1)) \<Longrightarrow> positive l \<in> set atoms"
    and E: "\<And>l. l \<in> set (effects_of op1) \<Longrightarrow> positive l \<in> set atoms"
    by (auto simp: operator_ok_def list_all_iff)
  have OU: "?O \<subseteq> ?U" using L origin_atom_in_universe [OF ok] by blast
  have AU: "?A \<subseteq> ?U" using E origin_atom_in_universe [OF ok] by blast
  have DU: "?D \<subseteq> ?U" using E opposite_atom_in_universe [OF ok] by blast
  note pre2 = rewritten_precondition [OF lits]
  have lits2: "set (lits_of (precondition ?op2)) = ?O" using pre2 by simp
  have add2: "set (map snd (add_effects ?op2)) = ?A"
    using rewritten_add_effects [of op1] by simp
  note tr = transition_of_Inr [OF t]
  note po = places_of_lookup(1) [OF tr(2)]
  note pd = places_of_lookup(1) [OF tr(3)]
  have onames: "set (map place_name (origins t)) = str_literal ` ?O"
    unfolding po using lits2 by simp
  have "set (map place_name (destinations t))
          = str_literal ` (set (map snd (add_effects ?op2)) \<union> ?K)"
    unfolding pd by (simp add: image_Un image_image)
  then have dnames: "set (map place_name (destinations t)) = str_literal ` (?A \<union> ?K)"
    by (simp only: add2)
  show "str_literal x \<in> set (map place_name (origins t)) \<longleftrightarrow> x \<in> ?O"
    unfolding onames by (rule inj_on_image_mem_iff [OF inj x OU])
  note kp = kept_preconditions_props(2,4) [of ?op2]
  have KO: "?K \<subseteq> ?O" using kp(1) lits2 by simp
  have "set (map (\<lambda>dele. str_literal (snd dele)) (del_effects ?op2))
          = str_literal ` (snd ` set (del_effects ?op2))"
    by (simp add: image_image)
  then have del2: "set (map (\<lambda>dele. str_literal (snd dele)) (del_effects ?op2))
          = str_literal ` ?D"
    by (simp only: rewritten_del_effects)
  have "set (map (\<lambda>eff. str_literal (snd eff)) (add_effects ?op2))
          = str_literal ` (snd ` set (add_effects ?op2))"
    by (simp add: image_image)
  then have add2s: "set (map (\<lambda>eff. str_literal (snd eff)) (add_effects ?op2))
          = str_literal ` ?A"
    by (simp only: rewritten_add_effects)
  have kept: "\<forall>q\<in>?O. str_literal q \<in> str_literal ` ?K
                 \<longleftrightarrow> str_literal q \<notin> str_literal ` ?A \<and> str_literal q \<notin> str_literal ` ?D"
    using kp(2) unfolding lits2 del2 add2s by simp
  show "str_literal x \<in> set (map place_name (destinations t))
           \<longleftrightarrow> x \<in> ?A \<or> (x \<in> ?O \<and> x \<notin> ?A \<and> x \<notin> ?D)"
    unfolding dnames by (rule kept_membership [OF inj OU AU DU KO kept x])
qed

subsection \<open>Firing a transition of a rewritten safe operator\<close>

lemma list_all2_in_set2:
  "list_all2 P xs ys \<Longrightarrow> y \<in> set ys \<Longrightarrow> \<exists>x\<in>set xs. P x y"
  by (induction rule: list_all2_induct) auto

lemma image_atom_iff:
  assumes ok: "atoms_ok atoms" and p: "p \<in> set atoms"
    and X: "\<And>l. l \<in> X \<Longrightarrow> positive l \<in> set atoms"
  shows "p \<in> origin_atom ` X \<longleftrightarrow> p \<in> X"
    and "complement_atom p \<in> origin_atom ` X \<longleftrightarrow> negate p \<in> X"
    and "p \<in> opposite_atom ` X \<longleftrightarrow> negate p \<in> X"
    and "complement_atom p \<in> opposite_atom ` X \<longleftrightarrow> p \<in> X"
proof -
  have eqs: "\<And>l. l \<in> X \<Longrightarrow> (origin_atom l = p \<longleftrightarrow> l = p)
                  \<and> (origin_atom l = complement_atom p \<longleftrightarrow> l = negate p)
                  \<and> (opposite_atom l = p \<longleftrightarrow> l = negate p)
                  \<and> (opposite_atom l = complement_atom p \<longleftrightarrow> l = p)"
    using origin_atom_eq [OF ok p X] opposite_atom_eq [OF ok p X] by simp
  show "p \<in> origin_atom ` X \<longleftrightarrow> p \<in> X"
    using eqs by (metis imageE image_eqI)
  show "complement_atom p \<in> origin_atom ` X \<longleftrightarrow> negate p \<in> X"
    using eqs by (metis imageE image_eqI)
  show "p \<in> opposite_atom ` X \<longleftrightarrow> negate p \<in> X"
    using eqs by (metis imageE image_eqI)
  show "complement_atom p \<in> opposite_atom ` X \<longleftrightarrow> p \<in> X"
    using eqs by (metis imageE image_eqI)
qed

lemma token_game_cases:
  fixes mp mv :: int
  assumes "mp = (if a then 1 else 0)" and "mv = (if a then 0 else 1)"
    and "pL \<Longrightarrow> a" and "nL \<Longrightarrow> \<not> a"
    and "pE \<Longrightarrow> \<not> nE" and "pE \<Longrightarrow> pL \<or> nL" and "nE \<Longrightarrow> nL \<or> pL"
  shows "(mp - (if pL then 1 else 0) + (if pE \<or> (pL \<and> \<not> pE \<and> \<not> nE) then 1 else 0) > 0)
       \<noteq> (mv - (if nL then 1 else 0) + (if nE \<or> (nL \<and> \<not> nE \<and> \<not> pE) then 1 else 0) > 0)"
  using assms by (cases a; cases pL; cases nL; cases pE; cases nE; simp)

lemma enabled_origin:
  assumes "enabled m t" and "nm \<in> set (map place_name (origins t))"
  shows "m nm > 0"
  using assms by (auto simp: enabled_def holds_token_def list_all_iff)

lemma fire_complement_pair:
  assumes ok: "atoms_ok atoms" and op_ok: "operator_ok atoms op1"
    and t: "transition_of (places_dict_of clean atoms al) (rewritten_operator op1) = Inr t"
    and p: "p \<in> set atoms"
    and mp: "m (str_literal p) = (if a then 1 else 0)"
    and mv: "m (str_literal (complement_atom p)) = (if a then 0 else 1)"
    and en: "enabled m t"
  shows "holds_token (fire m t) (str_literal p)
           \<noteq> holds_token (fire m t) (str_literal (complement_atom p))"
proof -
  let ?L = "set (lits_of (precondition op1))"
  let ?E = "set (effects_of op1)"
  let ?v = "complement_atom p"
  from op_ok have L: "\<And>l. l \<in> ?L \<Longrightarrow> positive l \<in> set atoms"
    and E: "\<And>l. l \<in> ?E \<Longrightarrow> positive l \<in> set atoms"
    and noclash: "\<And>l. l \<in> ?E \<Longrightarrow> negate l \<notin> ?E"
    and safe: "\<And>l. l \<in> ?E \<Longrightarrow> l \<in> ?L \<or> negate l \<in> ?L"
    by (auto simp: operator_ok_def list_all_iff)
  have pU: "p \<in> set atoms \<union> complement_atom ` set atoms" using p by simp
  have vU: "?v \<in> set atoms \<union> complement_atom ` set atoms" using p by simp
  note iL = image_atom_iff [OF ok p L]
  note iE = image_atom_iff [OF ok p E]
  have on_p: "str_literal p \<in> set (map place_name (origins t)) \<longleftrightarrow> p \<in> ?L"
    using rewritten_transition_names(1) [OF ok op_ok t pU] iL(1) by simp
  have on_v: "str_literal ?v \<in> set (map place_name (origins t)) \<longleftrightarrow> negate p \<in> ?L"
    using rewritten_transition_names(1) [OF ok op_ok t vU] iL(2) by simp
  have dn_p: "str_literal p \<in> set (map place_name (destinations t))
                \<longleftrightarrow> p \<in> ?E \<or> (p \<in> ?L \<and> p \<notin> ?E \<and> negate p \<notin> ?E)"
    using rewritten_transition_names(2) [OF ok op_ok t pU] iL(1) iE(1) iE(3) by simp
  have dn_v: "str_literal ?v \<in> set (map place_name (destinations t))
                \<longleftrightarrow> negate p \<in> ?E \<or> (negate p \<in> ?L \<and> negate p \<notin> ?E \<and> p \<notin> ?E)"
    using rewritten_transition_names(2) [OF ok op_ok t vU] iL(2) iE(2) iE(4) by simp
  have en_p: "p \<in> ?L \<Longrightarrow> a"
  proof -
    assume "p \<in> ?L"
    then have "m (str_literal p) > 0" using on_p enabled_origin [OF en] by blast
    then show a unfolding mp by (simp split: if_splits)
  qed
  have en_v: "negate p \<in> ?L \<Longrightarrow> \<not> a"
  proof -
    assume "negate p \<in> ?L"
    then have "m (str_literal ?v) > 0" using on_v enabled_origin [OF en] by blast
    then show "\<not> a" unfolding mv by (simp split: if_splits)
  qed
  have c1: "p \<in> ?E \<Longrightarrow> negate p \<notin> ?E" by (rule noclash)
  have c2: "p \<in> ?E \<Longrightarrow> p \<in> ?L \<or> negate p \<in> ?L" by (rule safe)
  have c3: "negate p \<in> ?E \<Longrightarrow> negate p \<in> ?L \<or> p \<in> ?L" using safe [of "negate p"] by simp
  show ?thesis
    unfolding holds_token_def fire_def on_p on_v dn_p dn_v
    by (rule token_game_cases [where a = a and pL = "p \<in> ?L" and nL = "negate p \<in> ?L"
          and pE = "p \<in> ?E" and nE = "negate p \<in> ?E", OF mp mv en_p en_v c1 c2 c3])
qed

subsection \<open>The complement pair in the initial marking and after one firing\<close>

text \<open>
  Claim C6, amended. Let the task be well formed: every literal of every action is over an
  atom of the atom list, no action has an effect together with its negation, no atom of the
  list is the \<open>not_\<close> atom of an atom of the list, and different atoms and \<open>not_\<close> atoms
  have different string forms. Then for every atom \<open>p\<close> that received a generated complement
  \<open>not_p\<close> (an entry of the complement mapping with the original \<open>\<not>p\<close>), exactly one of the
  places named by \<open>p\<close> and by \<open>not_p\<close> holds a token in the initial marking of the net built
  by \<open>petri_mapping\<close> from the safe, rewritten operators, and after firing any single
  transition that is enabled in the initial marking exactly one of the two still holds a
  token.
\<close>

theorem C6_complement_consistency:
  assumes wf: "well_formed_task atoms actions"
    and rnp: "remove_negative_preconditions (get_safe_operators actions) = Inr (ops, al)"
    and pm: "petri_mapping atoms al ops init = Inr net"
    and kv: "(k, not_p) \<in> set al"
  shows "holds_token (initial_marking net) (str_literal (positive k))
           \<noteq> holds_token (initial_marking net) (str_literal not_p)
       \<and> (\<forall>t\<in>set (transitions net). enabled (initial_marking net) t \<longrightarrow>
            holds_token (fire (initial_marking net) t) (str_literal (positive k))
              \<noteq> holds_token (fire (initial_marking net) t) (str_literal not_p))"
proof -
  let ?S = "get_safe_operators actions"
  let ?clean = "clean_init_loop init []"
  let ?m = "initial_marking net"
  have ok: "atoms_ok atoms" using wf by (rule well_formed_atoms_ok)
  note rw = remove_negative_preconditions_from_rewritten
              [OF rnp [unfolded remove_negative_preconditions_def]]
  from rw have lits: "\<And>op. op \<in> set ?S \<Longrightarrow> list_all is_Lit (precondition op)"
    by (simp add: list_all_iff)
  from rw have ops: "ops = map rewritten_operator ?S" by simp
  have opok: "\<And>op. op \<in> set ?S \<Longrightarrow> operator_ok atoms op"
    by (rule well_formed_operator_ok [OF wf _ lits])
  have al: "\<forall>(k', v')\<in>set al. negated k' \<and> v' = not_atom k' \<and> positive k' \<in> set atoms"
  proof (intro ballI, clarify)
    fix k' v' assume "(k', v') \<in> set al"
    with rw obtain op where k': "negated k'" "v' = not_atom k'" and op: "op \<in> set ?S"
      and "k' \<in> set (lits_of (precondition op)) \<or> k' \<in> set (effects_of op)"
      by fastforce
    with opok [OF op] have "positive k' \<in> set atoms"
      by (auto simp: operator_ok_def list_all_iff)
    with k' show "negated k' \<and> v' = not_atom k' \<and> positive k' \<in> set atoms" by simp
  qed
  define p where "p = positive k"
  from al kv have k: "negated k" "not_p = not_atom k" "p \<in> set atoms"
    by (auto simp: p_def)
  have v: "not_p = complement_atom p" using k by (simp add: not_atom_negated p_def)
  have kv': "(k, complement_atom p) \<in> set al" using kv v by simp
  have pk: "positive k = p" by (simp add: p_def)
  note places = petri_mapping_Inr(1) [OF pm]
  note trans = petri_mapping_Inr(2) [OF pm]
  have mp: "?m (str_literal p) = (if p \<in> set ?clean then 1 else 0)"
    by (rule initial_marking_atom [OF ok k(3) places])
  have mv: "?m (str_literal (complement_atom p)) = (if p \<in> set ?clean then 0 else 1)"
    by (rule initial_marking_complement [OF ok k(3) kv' pk al places])
  have init: "holds_token ?m (str_literal p) \<noteq> holds_token ?m (str_literal (complement_atom p))"
    by (simp add: holds_token_def mp mv)
  have step: "\<forall>t\<in>set (transitions net). enabled ?m t \<longrightarrow>
                holds_token (fire ?m t) (str_literal p)
                  \<noteq> holds_token (fire ?m t) (str_literal (complement_atom p))"
  proof (intro ballI impI)
    fix t assume t: "t \<in> set (transitions net)" and en: "enabled ?m t"
    from list_all2_in_set2 [OF trans t] obtain op2 where "op2 \<in> set ops"
      and tr: "transition_of (places_dict_of ?clean atoms al) op2 = Inr t" by blast
    then obtain op1 where op1: "op1 \<in> set ?S" and op2: "op2 = rewritten_operator op1"
      using ops by auto
    show "holds_token (fire ?m t) (str_literal p)
            \<noteq> holds_token (fire ?m t) (str_literal (complement_atom p))"
      by (rule fire_complement_pair [OF ok opok [OF op1] tr [unfolded op2] k(3) mp mv en])
  qed
  show ?thesis using init step unfolding v p_def by blast
qed

theorem C6_witness:
  "well_formed_task hick_atoms [ex_x]
   \<and> remove_negative_preconditions (get_safe_operators [ex_x]) = Inr (hick_safe, hick_additional)
   \<and> petri_mapping hick_atoms hick_additional hick_safe hick_init = Inr hick_net
   \<and> (negate atom_a, Literal ''not_a'' [] False) \<in> set hick_additional
   \<and> holds_token (initial_marking hick_net) (str_literal (positive (negate atom_a)))
       \<noteq> holds_token (initial_marking hick_net) (str_literal (Literal ''not_a'' [] False))
   \<and> enabled (initial_marking hick_net) (transitions hick_net ! 1)
   \<and> holds_token (fire (initial_marking hick_net) (transitions hick_net ! 1))
         (str_literal (positive (negate atom_a)))
       \<noteq> holds_token (fire (initial_marking hick_net) (transitions hick_net ! 1))
           (str_literal (Literal ''not_a'' [] False))"
proof -
  have wf: "well_formed_task hick_atoms [ex_x]" by code_simp
  have rnp: "remove_negative_preconditions (get_safe_operators [ex_x])
               = Inr (hick_safe, hick_additional)"
    by code_simp
  have pm: "petri_mapping hick_atoms hick_additional hick_safe hick_init = Inr hick_net"
    by code_simp
  have kv: "(negate atom_a, Literal ''not_a'' [] False) \<in> set hick_additional" by code_simp
  have t: "transitions hick_net ! 1 \<in> set (transitions hick_net)" by code_simp
  have en: "enabled (initial_marking hick_net) (transitions hick_net ! 1)" by code_simp
  from C6_complement_consistency [OF wf rnp pm kv] t en wf rnp pm kv show ?thesis by blast
qed

theorem C6_counterexample:
  "remove_negative_preconditions (get_safe_operators clash_actions)
     = Inr (clash_safe, clash_additional)
   \<and> petri_mapping clash_atoms clash_additional clash_safe clash_init = Inr clash_net
   \<and> (negate atom_p, atom_not_p) \<in> set clash_additional
   \<and> clash_mark_2 \<in> set (transitions clash_net)
   \<and> enabled (initial_marking clash_net) clash_mark_2
   \<and> holds_token (fire (initial_marking clash_net) clash_mark_2) (str_literal atom_p)
   \<and> holds_token (fire (initial_marking clash_net) clash_mark_2) (str_literal atom_not_p)"
proof -
  have "remove_negative_preconditions (get_safe_operators clash_actions)
          = Inr (clash_safe, clash_additional)"
    by code_simp
  moreover have "petri_mapping clash_atoms clash_additional clash_safe clash_init
                   = Inr clash_net"
    by code_simp
  moreover have "(negate atom_p, atom_not_p) \<in> set clash_additional" by code_simp
  moreover have "clash_mark_2 \<in> set (transitions clash_net)" by code_simp
  moreover have "enabled (initial_marking clash_net) clash_mark_2" by code_simp
  moreover have "holds_token (fire (initial_marking clash_net) clash_mark_2)
                   (str_literal atom_p)"
    by code_simp
  moreover have "holds_token (fire (initial_marking clash_net) clash_mark_2)
                   (str_literal atom_not_p)"
    by code_simp
  ultimately show ?thesis by blast
qed

end
